theory Spec2Isabelle
  imports Main "HOL-Library.Word"
begin

section \<open>Data model\<close>

text \<open>
  Every integer of the source is a \<^verbatim>\<open>uint32_t\<close> (the two ticket counters, the owner
  thread identifier as \<^verbatim>\<open>GetCurrentThreadId\<close> returns it, the recursion count), so it is
  a 32-bit word here: \<open>+\<close> and \<open>-\<close> wrap around as the C++ operators do.
\<close>

type_synonym u32 = "32 word"

text \<open>
  \<^verbatim>\<open>struct ticket_lock\<close>: the fields \<^verbatim>\<open>_next_ticket\<close> and \<^verbatim>\<open>_now_serving\<close>, both
  initialised to 0.
\<close>

record ticket_lock =
  next_ticket :: u32
  now_serving :: u32

text \<open>
  \<^verbatim>\<open>struct recursive_ticket_lock\<close>: the fields \<^verbatim>\<open>_lock\<close> (here \<open>inner\<close>, the name the
  specification uses), \<^verbatim>\<open>_owner\<close> and \<^verbatim>\<open>_recursion\<close>.
\<close>

record recursive_ticket_lock =
  inner :: ticket_lock
  owner :: u32
  recursion :: u32

text \<open>
  \<^verbatim>\<open>struct recursive_ticket_lock_suspension\<close>: the captured \<^verbatim>\<open>_owner\<close> and
  \<^verbatim>\<open>_recursion\<close>. Its reference \<^verbatim>\<open>_lock\<close> always points to the lock that made the
  token, which is passed to the destructor explicitly.
\<close>

record suspension =
  s_owner :: u32
  s_recursion :: u32

definition ticket_lock_init :: ticket_lock where
  "ticket_lock_init = \<lparr>next_ticket = 0, now_serving = 0\<rparr>"

definition recursive_ticket_lock_init :: recursive_ticket_lock where
  "recursive_ticket_lock_init = \<lparr>inner = ticket_lock_init, owner = 0, recursion = 0\<rparr>"

section \<open>The operations, run by one thread without interruption\<close>

text \<open>
  In this section an operation is executed from its first statement to its return while no
  other thread takes a step. An operation that may wait returns an option: \<open>None\<close> says
  that the call does not return as long as no other thread changes the lock.
\<close>

text \<open>
  Modelled from the spec: \<^verbatim>\<open>til::atomic_wait\<close> is declared in \<^verbatim>\<open>atomic.h\<close>, which is
  not among the sources. The specification says it blocks until the observed value of the
  counter changes from \<open>current\<close>. \<open>atomic_wait v current\<close> is what the call does when
  the counter holds \<open>v\<close>: \<open>Some ()\<close>, it returns at once, or \<open>None\<close>, the caller blocks.
  With no other thread running nobody changes the counter or wakes the caller, so a call that
  blocks does not return.
\<close>

definition atomic_wait :: "u32 \<Rightarrow> u32 \<Rightarrow> unit option" where
  "atomic_wait v current = (if v = current then None else Some ())"

text \<open>
  \<^verbatim>\<open>ticket_lock::_lockSlow\<close>: the do-while loop. It is \<^verbatim>\<open>const\<close>: it reads the lock
  and changes only its local \<open>current\<close>.
\<close>

partial_function (option) lockSlow :: "u32 \<Rightarrow> u32 \<Rightarrow> ticket_lock \<Rightarrow> unit option" where
  "lockSlow ticket current l =
     Option.bind (atomic_wait (now_serving l) current) (\<lambda>_.
       let current' = now_serving l in
       if current' \<noteq> ticket then lockSlow ticket current' l else Some ())"

declare lockSlow.simps [code]

text \<open>\<^verbatim>\<open>ticket_lock::lock\<close>.\<close>

definition ticket_lock_lock :: "ticket_lock \<Rightarrow> ticket_lock option" where
  "ticket_lock_lock l =
     (let ticket = next_ticket l;
          l' = l\<lparr>next_ticket := next_ticket l + 1\<rparr>;
          current = now_serving l'
      in if ticket \<noteq> current
         then Option.bind (lockSlow ticket current l') (\<lambda>_. Some l')
         else Some l')"

text \<open>
  \<^verbatim>\<open>ticket_lock::unlock\<close>. The call of \<^verbatim>\<open>til::atomic_notify_one\<close> that follows the
  increment changes no field of the lock; it only wakes a thread that waits, and here no
  other thread runs.
\<close>

definition ticket_lock_unlock :: "ticket_lock \<Rightarrow> ticket_lock" where
  "ticket_lock_unlock l = l\<lparr>now_serving := now_serving l + 1\<rparr>"

text \<open>
  \<^verbatim>\<open>recursive_ticket_lock::lock\<close>. The argument \<open>tid\<close> (\<^verbatim>\<open>id\<close> in the source) is the value of
  \<^verbatim>\<open>GetCurrentThreadId()\<close> in the calling thread.
\<close>

definition lock :: "u32 \<Rightarrow> recursive_ticket_lock \<Rightarrow> recursive_ticket_lock option" where
  "lock tid s =
     Option.bind
       (if owner s \<noteq> tid
        then Option.bind (ticket_lock_lock (inner s)) (\<lambda>l. Some (s\<lparr>inner := l, owner := tid\<rparr>))
        else Some s)
       (\<lambda>s'. Some (s'\<lparr>recursion := recursion s' + 1\<rparr>))"

text \<open>\<^verbatim>\<open>recursive_ticket_lock::unlock\<close>. It does not read the thread identifier.\<close>

definition unlock :: "recursive_ticket_lock \<Rightarrow> recursive_ticket_lock" where
  "unlock s =
     (let s' = s\<lparr>recursion := recursion s - 1\<rparr>
      in if recursion s' = 0
         then s'\<lparr>owner := 0, inner := ticket_lock_unlock (inner s')\<rparr>
         else s')"

text \<open>\<^verbatim>\<open>recursive_ticket_lock::suspend\<close>: the token and the lock after the call.\<close>

definition suspend :: "u32 \<Rightarrow> recursive_ticket_lock \<Rightarrow> suspension \<times> recursive_ticket_lock" where
  "suspend tid s =
     (if owner s = tid
      then (\<lparr>s_owner = tid, s_recursion = recursion s\<rparr>,
            s\<lparr>owner := 0, recursion := 0, inner := ticket_lock_unlock (inner s)\<rparr>)
      else (\<lparr>s_owner = 0, s_recursion = 0\<rparr>, s))"

text \<open>\<^verbatim>\<open>~recursive_ticket_lock_suspension\<close>: the destructor of a token, run on its lock.\<close>

definition suspension_destroy :: "suspension \<Rightarrow> recursive_ticket_lock \<Rightarrow> recursive_ticket_lock option" where
  "suspension_destroy t s =
     (if s_owner t \<noteq> 0
      then Option.bind
             (if owner s \<noteq> s_owner t
              then Option.bind (ticket_lock_lock (inner s))
                     (\<lambda>l. Some (s\<lparr>inner := l, owner := s_owner t\<rparr>))
              else Some s)
             (\<lambda>s'. Some (s'\<lparr>recursion := recursion s' + s_recursion t\<rparr>))
      else Some s)"

text \<open>
  \<^verbatim>\<open>recursive_ticket_lock::is_locked\<close> and \<^verbatim>\<open>recursion_depth\<close>. Both return a
  \<^verbatim>\<open>uint32_t\<close>; the comparison of \<open>is_locked\<close> converts to 1 or 0. They are written in
  the same state-passing style as the other operations: the second component is the lock
  after the call.
\<close>

definition is_locked :: "u32 \<Rightarrow> recursive_ticket_lock \<Rightarrow> u32 \<times> recursive_ticket_lock" where
  "is_locked tid s = (if owner s = tid then 1 else 0, s)"

definition recursion_depth :: "u32 \<Rightarrow> recursive_ticket_lock \<Rightarrow> u32 \<times> recursive_ticket_lock" where
  "recursion_depth tid s =
     (case is_locked tid s of (b, s') \<Rightarrow> (if b \<noteq> 0 then recursion s' else 0, s'))"

text \<open>
  The scenarios of the reentrancy property: \<open>lock_n k tid\<close> is \<open>k\<close> calls of \<open>lock\<close> in
  succession by the thread \<open>tid\<close> (it stops at the first call that does not return), and
  \<open>unlock_n k\<close> is \<open>k\<close> calls of \<open>unlock\<close>.
\<close>

primrec lock_n :: "nat \<Rightarrow> u32 \<Rightarrow> recursive_ticket_lock \<Rightarrow> recursive_ticket_lock option" where
  "lock_n 0 tid s = Some s"
| "lock_n (Suc n) tid s = Option.bind (lock tid s) (lock_n n tid)"

primrec unlock_n :: "nat \<Rightarrow> recursive_ticket_lock \<Rightarrow> recursive_ticket_lock" where
  "unlock_n 0 s = s"
| "unlock_n (Suc n) s = unlock_n n (unlock s)"

subsection \<open>Sequences of operations\<close>

text \<open>
  A lock together with the suspension tokens that are alive. An operation names the
  calling thread; \<open>Destroy i\<close> runs the destructor of the live token number \<open>i\<close>.
\<close>

record system =
  the_lock :: recursive_ticket_lock
  tokens :: "suspension list"

datatype op = Lock u32 | Unlock u32 | Suspend u32 | Destroy nat

definition system_init :: system where
  "system_init = \<lparr>the_lock = recursive_ticket_lock_init, tokens = []\<rparr>"

fun exec :: "op \<Rightarrow> system \<Rightarrow> system option" where
  "exec (Lock tid) c = map_option (\<lambda>l. c\<lparr>the_lock := l\<rparr>) (lock tid (the_lock c))"
| "exec (Unlock tid) c = Some (c\<lparr>the_lock := unlock (the_lock c)\<rparr>)"
| "exec (Suspend tid) c =
     (case suspend tid (the_lock c) of (t, l) \<Rightarrow> Some \<lparr>the_lock = l, tokens = tokens c @ [t]\<rparr>)"
| "exec (Destroy i) c =
     map_option (\<lambda>l. \<lparr>the_lock = l, tokens = take i (tokens c) @ drop (Suc i) (tokens c)\<rparr>)
       (suspension_destroy (tokens c ! i) (the_lock c))"

text \<open>
  The contract of the callers, as the specification words it: a thread identifier is not 0,
  \<open>unlock\<close> is called by the owner only (it matches an earlier \<open>lock\<close>), and a token is
  destroyed once, while it is alive.
\<close>

fun contract :: "op \<Rightarrow> system \<Rightarrow> bool" where
  "contract (Lock tid) c = (tid \<noteq> 0)"
| "contract (Unlock tid) c = (tid \<noteq> 0 \<and> owner (the_lock c) = tid)"
| "contract (Suspend tid) c = (tid \<noteq> 0)"
| "contract (Destroy i) c = (i < length (tokens c))"

text \<open>
  The operation does not wrap the 32-bit recursion count around: \<open>lock\<close> increments it,
  the destructor of a token adds the captured count to it.
\<close>

fun no_wrap :: "op \<Rightarrow> system \<Rightarrow> bool" where
  "no_wrap (Lock tid) c = (unat (recursion (the_lock c)) + 1 < 2 ^ 32)"
| "no_wrap (Unlock tid) c = True"
| "no_wrap (Suspend tid) c = True"
| "no_wrap (Destroy i) c =
     (unat (recursion (the_lock c)) + unat (s_recursion (tokens c ! i)) < 2 ^ 32)"

definition bounded_contract :: "op \<Rightarrow> system \<Rightarrow> bool" where
  "bounded_contract x c = (contract x c \<and> no_wrap x c)"

text \<open>
  \<open>run ok xs c\<close> executes the operations \<open>xs\<close> in order, each to its return. It is \<open>None\<close>
  when an operation is not allowed by \<open>ok\<close> in the state it is called in, or does not
  return.
\<close>

fun run :: "(op \<Rightarrow> system \<Rightarrow> bool) \<Rightarrow> op list \<Rightarrow> system \<Rightarrow> system option" where
  "run ok [] c = Some c"
| "run ok (x # xs) c = (if ok x c then Option.bind (exec x c) (run ok xs) else None)"

text \<open>The invariant of the specification, and what it needs of the live tokens.\<close>

definition lock_inv :: "recursive_ticket_lock \<Rightarrow> bool" where
  "lock_inv s = ((recursion s \<noteq> 0) = (owner s \<noteq> 0))"

definition token_ok :: "suspension \<Rightarrow> bool" where
  "token_ok t = ((s_recursion t \<noteq> 0) = (s_owner t \<noteq> 0))"

definition system_inv :: "system \<Rightarrow> bool" where
  "system_inv c = (lock_inv (the_lock c) \<and> list_all token_ok (tokens c))"

section \<open>The ticket lock under interleaving\<close>

text \<open>
  In this section several threads use one \<open>ticket_lock\<close>, and their statements
  interleave. A thread is named by its identifier, a 32-bit value. Every atomic operation of the source (\<^verbatim>\<open>fetch_add\<close>, \<^verbatim>\<open>load\<close>, the call
  of \<^verbatim>\<open>til::atomic_wait\<close>, the call of \<^verbatim>\<open>til::atomic_notify_one\<close>) is one step, and so
  is every test of a local variable. The steps of all threads form one sequence: an atomic
  operation reads the value the last write of the sequence left (the memory orders of the
  source are recorded in the label of a step; they do not change what a step does here).

  Each thread runs the loop of the mutual exclusion test of the specification, a number of
  times: \<^verbatim>\<open>lock(); counter += 1; unlock();\<close>. The increment of the shared counter is
  not atomic: it is a read and a write.

  The program counter of a thread, with the local variables that are live at that point
  (\<open>ticket\<close> and \<open>current\<close> of \<^verbatim>\<open>lock\<close> and \<^verbatim>\<open>_lockSlow\<close>, the value read from the
  counter).
\<close>

datatype pc =
    Idle \<comment> \<open>between two rounds of the loop; the next step calls \<^verbatim>\<open>lock\<close>\<close>
  | LockLoad u32 \<comment> \<open>\<^verbatim>\<open>lock\<close>: the ticket is taken, the load of \<^verbatim>\<open>_now_serving\<close> is next\<close>
  | LockTest u32 u32 \<comment> \<open>\<^verbatim>\<open>lock\<close>: the test \<^verbatim>\<open>ticket != current\<close> is next\<close>
  | SlowWait u32 u32 \<comment> \<open>\<^verbatim>\<open>_lockSlow\<close>: the call of \<^verbatim>\<open>til::atomic_wait\<close> is next\<close>
  | Blocked u32 u32 \<comment> \<open>\<^verbatim>\<open>_lockSlow\<close>: inside \<^verbatim>\<open>til::atomic_wait\<close>, waiting to be woken\<close>
  | SlowLoad u32 \<comment> \<open>\<^verbatim>\<open>_lockSlow\<close>: the wait has returned, the load is next\<close>
  | SlowTest u32 u32 \<comment> \<open>\<^verbatim>\<open>_lockSlow\<close>: the test \<^verbatim>\<open>current != ticket\<close> is next\<close>
  | CritRead \<comment> \<open>\<^verbatim>\<open>lock\<close> has returned; the read of the counter is next\<close>
  | CritWrite nat \<comment> \<open>the write of the counter is next\<close>
  | UnlockInc \<comment> \<open>\<^verbatim>\<open>unlock\<close>: the \<^verbatim>\<open>fetch_add\<close> on \<^verbatim>\<open>_now_serving\<close> is next\<close>
  | UnlockNotify \<comment> \<open>\<^verbatim>\<open>unlock\<close>: the call of \<^verbatim>\<open>til::atomic_notify_one\<close> is next\<close>

record thread =
  pc :: pc
  remaining :: nat

text \<open>
  The lock, the threads that are blocked in \<^verbatim>\<open>til::atomic_wait\<close> on \<^verbatim>\<open>_now_serving\<close>,
  the shared counter of the test, and the threads by their identifier.
\<close>

record global_state =
  lck :: ticket_lock
  waiters :: "u32 list"
  counter :: nat
  threads :: "u32 \<Rightarrow> thread"

text \<open>What a step did: the label of the step.\<close>

datatype memory_order = memory_order_relaxed | memory_order_acquire | memory_order_release

datatype atomic = NextTicket | NowServing

datatype action =
    FetchAdd atomic memory_order u32 \<comment> \<open>\<^verbatim>\<open>fetch_add(1, order)\<close> and the value it returned\<close>
  | Load atomic memory_order u32 \<comment> \<open>\<^verbatim>\<open>load(order)\<close> and the value it returned\<close>
  | LockWaits \<comment> \<open>the test found \<open>ticket \<noteq> current\<close>: the thread goes on in \<^verbatim>\<open>_lockSlow\<close>\<close>
  | LockReturns \<comment> \<open>the test found \<open>ticket = current\<close>: \<^verbatim>\<open>lock\<close> returns\<close>
  | AtomicWait atomic u32 \<comment> \<open>the call \<^verbatim>\<open>til::atomic_wait(atomic, current)\<close>\<close>
  | AtomicNotifyOne atomic "u32 option" \<comment> \<open>\<^verbatim>\<open>til::atomic_notify_one(atomic)\<close> and the thread it woke\<close>
  | SpuriousWake \<comment> \<open>a blocked thread is woken without a notification\<close>
  | CounterRead nat
  | CounterWrite nat

text \<open>
  An event of the schedule. \<open>Step t w\<close>: the thread \<open>t\<close> executes its next step; when that
  step is the call of \<^verbatim>\<open>til::atomic_notify_one\<close>, \<open>w\<close> is the waiter that the system
  chooses to wake (\<open>None\<close> when nobody waits). \<open>Spurious t\<close>: the blocked thread \<open>t\<close> is
  woken although nobody notified it.
\<close>

datatype event = Step u32 "u32 option" | Spurious u32

fun actor :: "event \<Rightarrow> u32" where
  "actor (Step t w) = t"
| "actor (Spurious t) = t"

definition set_pc :: "u32 \<Rightarrow> pc \<Rightarrow> global_state \<Rightarrow> global_state" where
  "set_pc t p s = s\<lparr>threads := (threads s)(t := (threads s t)\<lparr>pc := p\<rparr>)\<rparr>"

text \<open>
  Modelled from the spec: a thread that \<^verbatim>\<open>til::atomic_wait\<close> has blocked is woken (the
  function is declared in \<^verbatim>\<open>atomic.h\<close>, which is not among the sources). The woken
  thread leaves the waiters, its call of \<^verbatim>\<open>til::atomic_wait\<close> returns, and it goes on
  with the load that follows the call in \<^verbatim>\<open>_lockSlow\<close>.
\<close>

definition wake :: "u32 \<Rightarrow> global_state \<Rightarrow> global_state" where
  "wake v s =
     (let s' = s\<lparr>waiters := removeAll v (waiters s)\<rparr>
      in case pc (threads s v) of
           Blocked ticket current \<Rightarrow> set_pc v (SlowLoad ticket) s'
         | _ \<Rightarrow> s')"

text \<open>
  Modelled from the spec: \<^verbatim>\<open>til::atomic_notify_one\<close> is declared in \<^verbatim>\<open>atomic.h\<close>,
  which is not among the sources. The specification says it wakes one blocked waiter. The
  waiter \<open>w\<close> is the choice of the system: it is one of the waiters, or \<open>None\<close> when there is
  none; the result is \<open>None\<close> when \<open>w\<close> is not such a choice.
\<close>

definition atomic_notify_one :: "u32 option \<Rightarrow> global_state \<Rightarrow> global_state option" where
  "atomic_notify_one w s =
     (case w of
        None \<Rightarrow> if waiters s = [] then Some s else None
      | Some v \<Rightarrow> if v \<in> set (waiters s) then Some (wake v s) else None)"

text \<open>The end of one round of the loop of the test.\<close>

definition finish_round :: "u32 \<Rightarrow> global_state \<Rightarrow> global_state" where
  "finish_round t s =
     s\<lparr>threads := (threads s)(t := \<lparr>pc = Idle, remaining = remaining (threads s t) - 1\<rparr>)\<rparr>"

text \<open>
  One step of the thread \<open>t\<close> at the program counter given: \<^verbatim>\<open>ticket_lock::lock\<close>
  (\<open>Idle\<close> to \<open>LockTest\<close>), \<^verbatim>\<open>ticket_lock::_lockSlow\<close> (\<open>SlowWait\<close> to \<open>SlowTest\<close>),
  the increment of the counter, and \<^verbatim>\<open>ticket_lock::unlock\<close> (\<open>UnlockInc\<close>,
  \<open>UnlockNotify\<close>). The result is \<open>None\<close> when the thread cannot take a step: it has
  finished its rounds, it is blocked, or the choice \<open>w\<close> does not fit the waiters.
\<close>

fun thread_step :: "u32 \<Rightarrow> u32 option \<Rightarrow> pc \<Rightarrow> global_state \<Rightarrow> (action \<times> global_state) option" where
  "thread_step t w Idle s =
     (if remaining (threads s t) = 0 then None
      else Some (FetchAdd NextTicket memory_order_relaxed (next_ticket (lck s)),
                 set_pc t (LockLoad (next_ticket (lck s)))
                   (s\<lparr>lck := (lck s)\<lparr>next_ticket := next_ticket (lck s) + 1\<rparr>\<rparr>)))"
| "thread_step t w (LockLoad ticket) s =
     Some (Load NowServing memory_order_acquire (now_serving (lck s)),
           set_pc t (LockTest ticket (now_serving (lck s))) s)"
| "thread_step t w (LockTest ticket current) s =
     (if ticket \<noteq> current
      then Some (LockWaits, set_pc t (SlowWait ticket current) s)
      else Some (LockReturns, set_pc t CritRead s))"
| "thread_step t w (SlowWait ticket current) s =
     Some (AtomicWait NowServing current,
           case atomic_wait (now_serving (lck s)) current of
             Some _ \<Rightarrow> set_pc t (SlowLoad ticket) s
           | None \<Rightarrow> set_pc t (Blocked ticket current) (s\<lparr>waiters := waiters s @ [t]\<rparr>))"
| "thread_step t w (Blocked ticket current) s = None"
| "thread_step t w (SlowLoad ticket) s =
     Some (Load NowServing memory_order_acquire (now_serving (lck s)),
           set_pc t (SlowTest ticket (now_serving (lck s))) s)"
| "thread_step t w (SlowTest ticket current) s =
     (if current \<noteq> ticket
      then Some (LockWaits, set_pc t (SlowWait ticket current) s)
      else Some (LockReturns, set_pc t CritRead s))"
| "thread_step t w CritRead s =
     Some (CounterRead (counter s), set_pc t (CritWrite (counter s)) s)"
| "thread_step t w (CritWrite v) s =
     Some (CounterWrite (v + 1), set_pc t UnlockInc (s\<lparr>counter := v + 1\<rparr>))"
| "thread_step t w UnlockInc s =
     Some (FetchAdd NowServing memory_order_release (now_serving (lck s)),
           set_pc t UnlockNotify
             (s\<lparr>lck := (lck s)\<lparr>now_serving := now_serving (lck s) + 1\<rparr>\<rparr>))"
| "thread_step t w UnlockNotify s =
     (case atomic_notify_one w s of
        None \<Rightarrow> None
      | Some s' \<Rightarrow> Some (AtomicNotifyOne NowServing w, finish_round t s'))"

fun step :: "event \<Rightarrow> global_state \<Rightarrow> (action \<times> global_state) option" where
  "step (Step t w) s = thread_step t w (pc (threads s t)) s"
| "step (Spurious t) s =
     (if t \<in> set (waiters s) then Some (SpuriousWake, wake t s) else None)"

text \<open>
  An execution: the events are run in order from a state, and the log collects the thread
  and the label of every step. The result is \<open>None\<close> when an event cannot happen in the
  state it meets.
\<close>

type_synonym log = "(u32 \<times> action) list"

fun execute :: "event list \<Rightarrow> log \<times> global_state \<Rightarrow> (log \<times> global_state) option" where
  "execute [] c = Some c"
| "execute (e # es) c =
     (case step e (snd c) of
        None \<Rightarrow> None
      | Some (a, s') \<Rightarrow> execute es (fst c @ [(actor e, a)], s'))"

text \<open>
  The initial state: the constructed lock, nobody waits, the counter is 0, and the thread
  \<open>t\<close> has \<open>rounds t\<close> rounds of the loop to run.
\<close>

definition init_state :: "(u32 \<Rightarrow> nat) \<Rightarrow> global_state" where
  "init_state rounds =
     \<lparr>lck = ticket_lock_init, waiters = [], counter = 0,
      threads = (\<lambda>t. \<lparr>pc = Idle, remaining = rounds t\<rparr>)\<rparr>"

text \<open>
  A thread is in its critical section from the return of \<^verbatim>\<open>lock\<close> to the increment of
  \<^verbatim>\<open>_now_serving\<close> in \<^verbatim>\<open>unlock\<close>.
\<close>

fun in_critical_section :: "pc \<Rightarrow> bool" where
  "in_critical_section CritRead = True"
| "in_critical_section (CritWrite v) = True"
| "in_critical_section UnlockInc = True"
| "in_critical_section _ = False"

text \<open>
  What the log says: the threads in the order in which they took a ticket, in the order in
  which their \<^verbatim>\<open>lock\<close> returned, and in the order in which their \<^verbatim>\<open>unlock\<close>
  incremented \<^verbatim>\<open>_now_serving\<close>.
\<close>

fun is_issue :: "action \<Rightarrow> bool" where
  "is_issue (FetchAdd NextTicket order v) = True"
| "is_issue _ = False"

fun is_enter :: "action \<Rightarrow> bool" where
  "is_enter LockReturns = True"
| "is_enter _ = False"

fun is_release :: "action \<Rightarrow> bool" where
  "is_release (FetchAdd NowServing order v) = True"
| "is_release _ = False"

definition issued :: "log \<Rightarrow> u32 list" where
  "issued l = map fst (filter (\<lambda>x. is_issue (snd x)) l)"

definition entered :: "log \<Rightarrow> u32 list" where
  "entered l = map fst (filter (\<lambda>x. is_enter (snd x)) l)"

definition released :: "log \<Rightarrow> u32 list" where
  "released l = map fst (filter (\<lambda>x. is_release (snd x)) l)"

text \<open>
  A schedule in which a thread runs one round of the loop alone (seven steps, and nobody
  to wake), and the states in which no round is under way: the lock is free, nobody
  waits, every thread is between two rounds.
\<close>

definition solo_round :: "u32 \<Rightarrow> event list" where
  "solo_round t = [Step t None, Step t None, Step t None, Step t None, Step t None,
                   Step t None, Step t None]"

definition quiet :: "global_state \<Rightarrow> bool" where
  "quiet s = (now_serving (lck s) = next_ticket (lck s) \<and> waiters s = []
              \<and> (\<forall>t. pc (threads s t) = Idle))"


subsection \<open>The invariant of an execution\<close>

text \<open>
  The invariant is stated over the three lists read from the log: \<open>I\<close>, the threads in
  the order of their tickets; \<open>E\<close>, in the order in which \<^verbatim>\<open>lock\<close> returned; \<open>R\<close>, in
  the order of their increments of \<^verbatim>\<open>_now_serving\<close>. The thread number \<open>n\<close> of \<open>I\<close>
  holds the ticket \<open>n\<close> (modulo \<open>2^32\<close>). The threads that hold a ticket and have not
  released are \<open>drop (length R) I\<close>: the queue.

  \<open>holds\<close>: the thread is the head of the queue and its \<^verbatim>\<open>lock\<close> has returned.
  \<open>queued\<close>: the thread is in the queue with the ticket given.
\<close>

definition holds :: "u32 list \<Rightarrow> nat \<Rightarrow> nat \<Rightarrow> u32 \<Rightarrow> bool" where
  "holds I r e t = (r < length I \<and> I ! r = t \<and> e = Suc r)"

definition queued :: "u32 list \<Rightarrow> nat \<Rightarrow> u32 \<Rightarrow> u32 \<Rightarrow> bool" where
  "queued I r t ticket = (\<exists>n. r \<le> n \<and> n < length I \<and> I ! n = t \<and> ticket = of_nat n)"

text \<open>
  What the program counter of a thread says about its place in the queue. A thread whose
  test is about to succeed (\<open>current = ticket\<close>) is the head of the queue, and no
  \<^verbatim>\<open>lock\<close> has returned since the last release.
\<close>

fun pc_inv :: "u32 list \<Rightarrow> nat \<Rightarrow> nat \<Rightarrow> u32 \<Rightarrow> pc \<Rightarrow> bool" where
  "pc_inv I r e t Idle = (t \<notin> set (drop r I))"
| "pc_inv I r e t UnlockNotify = (t \<notin> set (drop r I))"
| "pc_inv I r e t CritRead = holds I r e t"
| "pc_inv I r e t (CritWrite v) = holds I r e t"
| "pc_inv I r e t UnlockInc = holds I r e t"
| "pc_inv I r e t (LockLoad k) = queued I r t k"
| "pc_inv I r e t (LockTest k c) = (queued I r t k \<and> (c = k \<longrightarrow> I ! r = t \<and> e = r))"
| "pc_inv I r e t (SlowWait k c) = queued I r t k"
| "pc_inv I r e t (Blocked k c) = queued I r t k"
| "pc_inv I r e t (SlowLoad k) = queued I r t k"
| "pc_inv I r e t (SlowTest k c) = (queued I r t k \<and> (c = k \<longrightarrow> I ! r = t \<and> e = r))"

text \<open>
  The parts of the invariant: the three lists are prefixes of one another and at most one
  thread has entered and not released; the two counters of the lock count the tickets and the
  releases; the queue has no thread twice and every program counter fits it; every thread
  has released as many times as it has finished rounds; the shared counter counts the
  releases, and the write that is pending in the critical section.
\<close>

definition log_inv :: "u32 list \<Rightarrow> u32 list \<Rightarrow> u32 list \<Rightarrow> bool" where
  "log_inv I E R =
     (R = take (length R) I \<and> E = take (length E) I
      \<and> length R \<le> length E \<and> length E \<le> Suc (length R))"

definition counters_inv :: "u32 list \<Rightarrow> u32 list \<Rightarrow> global_state \<Rightarrow> bool" where
  "counters_inv I R s =
     (next_ticket (lck s) = of_nat (length I) \<and> now_serving (lck s) = of_nat (length R))"

definition threads_inv :: "u32 list \<Rightarrow> nat \<Rightarrow> nat \<Rightarrow> global_state \<Rightarrow> bool" where
  "threads_inv I r e s =
     (distinct (drop r I)
      \<and> (\<forall>t. pc_inv I r e t (pc (threads s t)))
      \<and> (e = Suc r \<longrightarrow> in_critical_section (pc (threads s (I ! r)))))"

definition rounds_inv :: "(u32 \<Rightarrow> nat) \<Rightarrow> u32 list \<Rightarrow> global_state \<Rightarrow> bool" where
  "rounds_inv rounds R s =
     ((\<forall>t. pc (threads s t) \<noteq> Idle \<longrightarrow> 0 < remaining (threads s t))
      \<and> (\<forall>t. count_list R t + remaining (threads s t) =
               rounds t + (if pc (threads s t) = UnlockNotify then 1 else 0)))"

definition counter_inv :: "u32 list \<Rightarrow> nat \<Rightarrow> nat \<Rightarrow> global_state \<Rightarrow> bool" where
  "counter_inv I r e s =
     (counter s = r + (if e = Suc r \<and> pc (threads s (I ! r)) = UnlockInc then 1 else 0)
      \<and> (\<forall>t v. pc (threads s t) = CritWrite v \<longrightarrow> v = counter s))"

definition queue_inv :: "(u32 \<Rightarrow> nat) \<Rightarrow> u32 list \<Rightarrow> u32 list \<Rightarrow> u32 list \<Rightarrow> global_state \<Rightarrow> bool" where
  "queue_inv rounds I E R s =
     (log_inv I E R \<and> counters_inv I R s \<and> threads_inv I (length R) (length E) s
      \<and> rounds_inv rounds R s \<and> counter_inv I (length R) (length E) s)"

definition exec_inv :: "(u32 \<Rightarrow> nat) \<Rightarrow> log \<times> global_state \<Rightarrow> bool" where
  "exec_inv rounds c =
     queue_inv rounds (issued (fst c)) (entered (fst c)) (released (fst c)) (snd c)"


text \<open>The ticket a thread holds while it is inside \<^verbatim>\<open>lock\<close>.\<close>

fun ticket_of :: "pc \<Rightarrow> u32 option" where
  "ticket_of (LockLoad k) = Some k"
| "ticket_of (LockTest k c) = Some k"
| "ticket_of (SlowWait k c) = Some k"
| "ticket_of (Blocked k c) = Some k"
| "ticket_of (SlowLoad k) = Some k"
| "ticket_of (SlowTest k c) = Some k"
| "ticket_of _ = None"

text \<open>
  The order of a log is first-in first-out: the threads whose \<^verbatim>\<open>lock\<close> has returned are the
  first of those that took a ticket, in the same order; the threads that have released are
  the first of those that entered, in the same order; and at most one thread has entered and
  not yet released.
\<close>

definition fifo_order :: "log \<Rightarrow> bool" where
  "fifo_order l =
     (entered l = take (length (entered l)) (issued l)
      \<and> released l = take (length (released l)) (entered l)
      \<and> length (entered l) \<le> Suc (length (released l)))"


text \<open>
  A thread is blocked while it is inside \<^verbatim>\<open>til::atomic_wait\<close>. In an execution the
  waiters are the blocked threads, each of them once.
\<close>

fun is_blocked :: "pc \<Rightarrow> bool" where
  "is_blocked (Blocked ticket current) = True"
| "is_blocked _ = False"

definition waiters_inv :: "global_state \<Rightarrow> bool" where
  "waiters_inv s =
     (distinct (waiters s) \<and> (\<forall>t. (t \<in> set (waiters s)) = is_blocked (pc (threads s t))))"

text \<open>
  What holds of every state of an execution in which only the threads \<open>a\<close> and \<open>b\<close> run
  rounds: every other thread stays as it started; a thread is in \<^verbatim>\<open>_lockSlow\<close> with a
  value \<open>current\<close> that is not its ticket; and a thread is blocked on a value that
  \<^verbatim>\<open>_now_serving\<close> no longer has only while the other thread is between the increment
  and the notification of \<^verbatim>\<open>unlock\<close>.
\<close>

definition two_thread_inv :: "u32 \<Rightarrow> u32 \<Rightarrow> global_state \<Rightarrow> bool" where
  "two_thread_inv a b s =
     ((\<forall>t. t \<noteq> a \<and> t \<noteq> b \<longrightarrow> threads s t = \<lparr>pc = Idle, remaining = 0\<rparr>)
      \<and> (\<forall>t k c. pc (threads s t) = SlowWait k c \<or> pc (threads s t) = Blocked k c \<longrightarrow> k \<noteq> c)
      \<and> (\<forall>t k c. pc (threads s t) = Blocked k c \<longrightarrow>
            c = now_serving (lck s) \<or> (\<exists>u. pc (threads s u) = UnlockNotify)))"


text \<open>
  A measure of what an execution has left to do when no thread is woken without a
  notification (\<open>is_step\<close>: the event is a step of a thread). \<open>unlocks_left\<close>: twice the
  rounds a thread has left, less one when its \<^verbatim>\<open>unlock\<close> has incremented
  \<^verbatim>\<open>_now_serving\<close>. \<open>steps_left\<close>: the steps a thread can take before it is blocked or
  reaches the increment of \<^verbatim>\<open>unlock\<close>, while \<^verbatim>\<open>_now_serving\<close> keeps its value.
  \<open>started\<close>: a thread that is inside a round has that round left.
\<close>

fun is_step :: "event \<Rightarrow> bool" where
  "is_step (Step t w) = True"
| "is_step (Spurious t) = False"

definition unlocks_left :: "thread \<Rightarrow> nat" where
  "unlocks_left th = 2 * remaining th - (if pc th = UnlockNotify then 1 else 0)"

fun steps_left :: "u32 \<Rightarrow> nat \<Rightarrow> pc \<Rightarrow> nat" where
  "steps_left serving r Idle = (if r = 0 then 0 else 9)"
| "steps_left serving r (LockLoad k) = 8"
| "steps_left serving r (LockTest k c) = 7"
| "steps_left serving r (SlowWait k c) = (if serving \<noteq> c then 6 else 1)"
| "steps_left serving r (Blocked k c) = 0"
| "steps_left serving r (SlowLoad k) = 5"
| "steps_left serving r (SlowTest k c) = (if serving \<noteq> c then 7 else 4)"
| "steps_left serving r CritRead = 3"
| "steps_left serving r (CritWrite v) = 2"
| "steps_left serving r UnlockInc = 1"
| "steps_left serving r UnlockNotify = 0"

definition unlocks_sum :: "global_state \<Rightarrow> nat" where
  "unlocks_sum s = (\<Sum>t\<in>UNIV. unlocks_left (threads s t))"

definition steps_sum :: "global_state \<Rightarrow> nat" where
  "steps_sum s =
     (\<Sum>t\<in>UNIV. steps_left (now_serving (lck s)) (remaining (threads s t)) (pc (threads s t)))"

definition started :: "global_state \<Rightarrow> bool" where
  "started s = (\<forall>t. pc (threads s t) \<noteq> Idle \<longrightarrow> 0 < remaining (threads s t))"

definition run_measure :: "global_state \<Rightarrow> nat" where
  "run_measure s = unlocks_sum s * (9 * card (UNIV :: u32 set) + 1) + steps_sum s"


section \<open>Facts about the ticket lock run alone\<close>

lemma lockSlow_unchanged: "lockSlow ticket (now_serving l) l = None"
  by (subst lockSlow.simps) (simp add: atomic_wait_def)

lemma ticket_lock_lock_free:
  "next_ticket l = now_serving l \<Longrightarrow> ticket_lock_lock l = Some (l\<lparr>next_ticket := next_ticket l + 1\<rparr>)"
  by (simp add: ticket_lock_lock_def Let_def)

lemma ticket_lock_lock_held:
  "next_ticket l \<noteq> now_serving l \<Longrightarrow> ticket_lock_lock l = None"
  by (simp add: ticket_lock_lock_def Let_def lockSlow_unchanged [of _ "l\<lparr>next_ticket := next_ticket l + 1\<rparr>", simplified])

section \<open>Facts about the recursive lock run by one thread\<close>

lemma lock_reentrant: "owner s = tid \<Longrightarrow> lock tid s = Some (s\<lparr>recursion := recursion s + 1\<rparr>)"
  by (simp add: lock_def)

lemma lock_acquire:
  "owner s \<noteq> tid \<Longrightarrow> next_ticket (inner s) = now_serving (inner s) \<Longrightarrow>
   lock tid s = Some (s\<lparr>inner := (inner s)\<lparr>next_ticket := next_ticket (inner s) + 1\<rparr>,
                        owner := tid, recursion := recursion s + 1\<rparr>)"
  by (simp add: lock_def ticket_lock_lock_free)

lemma lock_blocked:
  "owner s \<noteq> tid \<Longrightarrow> next_ticket (inner s) \<noteq> now_serving (inner s) \<Longrightarrow> lock tid s = None"
  by (simp add: lock_def ticket_lock_lock_held)

lemma lock_n_reentrant:
  "owner s = tid \<Longrightarrow> lock_n k tid s = Some (s\<lparr>recursion := recursion s + of_nat k\<rparr>)"
  by (induction k arbitrary: s) (simp_all add: lock_reentrant add.assoc add.commute)

lemma lock_n_acquire:
  assumes "owner s \<noteq> tid" "next_ticket (inner s) = now_serving (inner s)"
  shows "lock_n (Suc k) tid s =
     Some (s\<lparr>inner := (inner s)\<lparr>next_ticket := next_ticket (inner s) + 1\<rparr>,
             owner := tid, recursion := recursion s + 1 + of_nat k\<rparr>)"
  using assms by (simp add: lock_acquire lock_n_reentrant)

lemma unlock_n_nested:
  "unat (recursion s) = Suc k \<Longrightarrow>
   unlock_n (Suc k) s = s\<lparr>recursion := 0, owner := 0, inner := ticket_lock_unlock (inner s)\<rparr>"
proof (induction k arbitrary: s)
  case 0
  then have "recursion s = 1" by (metis One_nat_def unat_1 word_unat_eq_iff)
  then show ?case by (simp add: unlock_def)
next
  case (Suc k)
  have ne: "recursion s \<noteq> 0" using Suc.prems by (auto simp: unat_eq_0)
  have u: "unat (recursion s - 1) = Suc k"
    using Suc.prems ne by (simp add: unat_minus_one)
  then have "recursion s - 1 \<noteq> 0" by (auto simp: unat_eq_0)
  then have "unlock s = s\<lparr>recursion := recursion s - 1\<rparr>"
    by (simp add: unlock_def)
  then show ?case using Suc.IH [of "s\<lparr>recursion := recursion s - 1\<rparr>"] u by simp
qed


section \<open>The observers and the initial state\<close>

text \<open>
  Claim C9. \<open>is_locked\<close> returns 1 (true) exactly when the identifier of the calling thread
  is the stored owner, and 0 otherwise; \<open>recursion_depth\<close> returns the recursion count when
  \<open>is_locked\<close> is true and 0 otherwise; both leave the lock as it was. The constructed lock
  has both ticket counters, the owner and the recursion count at 0, and on every thread
  (a thread identifier is never 0, the value that stands for no owner) it reports
  \<open>is_locked\<close> false and \<open>recursion_depth\<close> 0.
\<close>

theorem observers_and_initial_state:
  "fst (is_locked tid s) = (if owner s = tid then 1 else 0)
   \<and> fst (recursion_depth tid s) = (if fst (is_locked tid s) = 1 then recursion s else 0)
   \<and> snd (is_locked tid s) = s
   \<and> snd (recursion_depth tid s) = s
   \<and> next_ticket (inner recursive_ticket_lock_init) = 0
   \<and> now_serving (inner recursive_ticket_lock_init) = 0
   \<and> owner recursive_ticket_lock_init = 0
   \<and> recursion recursive_ticket_lock_init = 0
   \<and> (tid \<noteq> 0 \<longrightarrow> fst (is_locked tid recursive_ticket_lock_init) = 0
                  \<and> fst (recursion_depth tid recursive_ticket_lock_init) = 0)"
  by (simp add: is_locked_def recursion_depth_def recursive_ticket_lock_init_def
      ticket_lock_init_def)

theorem observers_and_initial_state_witness:
  "(7::u32) \<noteq> 0
   \<and> fst (is_locked 7 recursive_ticket_lock_init) = 0
   \<and> fst (recursion_depth 7 recursive_ticket_lock_init) = 0
   \<and> fst (is_locked 7 \<lparr>inner = \<lparr>next_ticket = 1, now_serving = 0\<rparr>, owner = 7, recursion = 3\<rparr>) = 1
   \<and> fst (recursion_depth 7 \<lparr>inner = \<lparr>next_ticket = 1, now_serving = 0\<rparr>, owner = 7, recursion = 3\<rparr>) = 3"
  using observers_and_initial_state [of 7 recursive_ticket_lock_init]
    observers_and_initial_state [of 7 "\<lparr>inner = \<lparr>next_ticket = 1, now_serving = 0\<rparr>, owner = 7, recursion = 3\<rparr>"]
  by simp

section \<open>Suspension\<close>

text \<open>
  Claim C6. When the calling thread is the owner at depth \<open>d\<close>, \<open>suspend\<close> returns the
  token \<open>(owner, d)\<close>, sets the owner to 0 and the recursion count to 0, and releases the
  inner ticket lock once: \<open>now_serving\<close> advances by one and \<open>next_ticket\<close> stays. When
  the owner held the inner lock with nobody queued behind it, the inner lock is free
  afterwards: the next \<open>ticket_lock_lock\<close> returns at once. When the calling thread is not
  the owner, the token is \<open>(0, 0)\<close>, the lock is unchanged, and the destructor of that token
  returns on any lock \<open>s'\<close> and leaves it unchanged.
\<close>

theorem suspend_semantics:
  "(owner s = tid \<longrightarrow>
      suspend tid s =
        (\<lparr>s_owner = owner s, s_recursion = recursion s\<rparr>,
         s\<lparr>owner := 0, recursion := 0,
           inner := (inner s)\<lparr>now_serving := now_serving (inner s) + 1\<rparr>\<rparr>))
   \<and> (owner s = tid \<and> next_ticket (inner s) = now_serving (inner s) + 1 \<longrightarrow>
      ticket_lock_lock (inner (snd (suspend tid s))) =
        Some ((inner s)\<lparr>next_ticket := next_ticket (inner s) + 1,
                        now_serving := now_serving (inner s) + 1\<rparr>))
   \<and> (owner s \<noteq> tid \<longrightarrow>
      suspend tid s = (\<lparr>s_owner = 0, s_recursion = 0\<rparr>, s)
      \<and> suspension_destroy (fst (suspend tid s)) s' = Some s')"
  by (simp add: suspend_def ticket_lock_unlock_def suspension_destroy_def ticket_lock_lock_free)

theorem suspend_semantics_witness:
  "suspend 7 \<lparr>inner = \<lparr>next_ticket = 5, now_serving = 4\<rparr>, owner = 7, recursion = 3\<rparr>
     = (\<lparr>s_owner = 7, s_recursion = 3\<rparr>,
        \<lparr>inner = \<lparr>next_ticket = 5, now_serving = 5\<rparr>, owner = 0, recursion = 0\<rparr>)
   \<and> ticket_lock_lock (inner (snd (suspend 7
        \<lparr>inner = \<lparr>next_ticket = 5, now_serving = 4\<rparr>, owner = 7, recursion = 3\<rparr>)))
     = Some \<lparr>next_ticket = 6, now_serving = 5\<rparr>
   \<and> suspend 9 \<lparr>inner = \<lparr>next_ticket = 5, now_serving = 4\<rparr>, owner = 7, recursion = 3\<rparr>
     = (\<lparr>s_owner = 0, s_recursion = 0\<rparr>,
        \<lparr>inner = \<lparr>next_ticket = 5, now_serving = 4\<rparr>, owner = 7, recursion = 3\<rparr>)
   \<and> suspension_destroy (fst (suspend 9
        \<lparr>inner = \<lparr>next_ticket = 5, now_serving = 4\<rparr>, owner = 7, recursion = 3\<rparr>))
        \<lparr>inner = \<lparr>next_ticket = 5, now_serving = 5\<rparr>, owner = 0, recursion = 0\<rparr>
     = Some \<lparr>inner = \<lparr>next_ticket = 5, now_serving = 5\<rparr>, owner = 0, recursion = 0\<rparr>"
proof -
  let ?s = "\<lparr>inner = \<lparr>next_ticket = 5, now_serving = 4\<rparr>, owner = 7, recursion = 3 :: u32\<rparr>"
  let ?s' = "\<lparr>inner = \<lparr>next_ticket = 5, now_serving = 5\<rparr>, owner = 0, recursion = 0 :: u32\<rparr>"
  note own = suspend_semantics [of ?s 7]
  note other = suspend_semantics [of ?s 9 ?s']
  have 1: "suspend 7 ?s = (\<lparr>s_owner = 7, s_recursion = 3\<rparr>, ?s')"
    using own by simp
  have 2: "ticket_lock_lock (inner (snd (suspend 7 ?s))) = Some \<lparr>next_ticket = 6, now_serving = 5\<rparr>"
    using conjunct1 [OF conjunct2 [OF own]] by simp
  have 3: "suspend 9 ?s = (\<lparr>s_owner = 0, s_recursion = 0\<rparr>, ?s)"
    using other by simp
  have 4: "suspension_destroy (fst (suspend 9 ?s)) ?s' = Some ?s'"
    using conjunct2 [OF conjunct2 [OF other]] by auto
  show ?thesis using 1 2 3 4 by blast
qed

text \<open>
  Claim C7. A thread \<open>tid\<close> holds the lock at depth \<open>d\<close>, with no other caller queued on
  the inner lock (\<open>next_ticket\<close> is one ahead of \<open>now_serving\<close>). It calls \<open>suspend\<close> and
  destroys the token at once. The destructor returns, the owner is \<open>tid\<close> again, and the
  depth is \<open>d\<close>: \<open>is_locked\<close> is true and \<open>recursion_depth\<close> is \<open>d\<close>. Both ticket
  counters have advanced by one, the rest of the lock is as before. The statement holds for
  every \<open>d\<close>, in particular for every \<open>d \<ge> 1\<close>.
\<close>

theorem suspend_resume_round_trip:
  assumes "tid \<noteq> 0" and "owner s = tid" and "recursion s = d"
    and "next_ticket (inner s) = now_serving (inner s) + 1"
  shows "\<exists>s'. suspension_destroy (fst (suspend tid s)) (snd (suspend tid s)) = Some s'
           \<and> s' = s\<lparr>inner := \<lparr>next_ticket = next_ticket (inner s) + 1,
                               now_serving = now_serving (inner s) + 1\<rparr>\<rparr>
           \<and> owner s' = tid \<and> recursion s' = d
           \<and> fst (is_locked tid s') = 1 \<and> fst (recursion_depth tid s') = d"
  using assms
  by (simp add: suspend_def suspension_destroy_def ticket_lock_unlock_def ticket_lock_lock_free
      is_locked_def recursion_depth_def)

theorem suspend_resume_round_trip_witness:
  "\<exists>s'. suspension_destroy
           (fst (suspend 7 \<lparr>inner = \<lparr>next_ticket = 5, now_serving = 4\<rparr>, owner = 7, recursion = 3\<rparr>))
           (snd (suspend 7 \<lparr>inner = \<lparr>next_ticket = 5, now_serving = 4\<rparr>, owner = 7, recursion = 3\<rparr>))
         = Some s'
       \<and> s' = \<lparr>inner = \<lparr>next_ticket = 6, now_serving = 5\<rparr>, owner = 7, recursion = 3\<rparr>
       \<and> fst (is_locked 7 s') = 1 \<and> fst (recursion_depth 7 s') = 3"
  using suspend_resume_round_trip
    [of 7 "\<lparr>inner = \<lparr>next_ticket = 5, now_serving = 4\<rparr>, owner = 7, recursion = 3\<rparr>" 3]
  by simp

text \<open>
  Claim C8. The destructor of a token whose captured owner is not 0: when the owner of the
  lock is the captured owner, it only adds the captured count to the recursion count; when
  the owner differs, it takes the inner lock (and returns only if that call returns), stores
  the captured owner, and adds the captured count to the recursion count the lock has then.
  The scenario: a thread \<open>tid\<close> holds the lock at depth 2 with nobody queued, suspends,
  calls \<open>lock\<close> and \<open>unlock\<close> once each, and destroys the token. Every call returns, and
  afterwards \<open>is_locked\<close> is true and \<open>recursion_depth\<close> is 2.
\<close>

theorem token_restoration_composes:
  "(s_owner t \<noteq> 0 \<and> owner s = s_owner t \<longrightarrow>
      suspension_destroy t s = Some (s\<lparr>recursion := recursion s + s_recursion t\<rparr>))
   \<and> (s_owner t \<noteq> 0 \<and> owner s \<noteq> s_owner t \<longrightarrow>
      suspension_destroy t s =
        map_option (\<lambda>l. s\<lparr>inner := l, owner := s_owner t,
                             recursion := recursion s + s_recursion t\<rparr>)
          (ticket_lock_lock (inner s)))
   \<and> (tid \<noteq> 0 \<and> owner s = tid \<and> recursion s = 2
        \<and> next_ticket (inner s) = now_serving (inner s) + 1 \<longrightarrow>
      (\<exists>s1 s2 s'. snd (suspend tid s) = s1 \<and> lock tid s1 = Some s2
         \<and> suspension_destroy (fst (suspend tid s)) (unlock s2) = Some s'
         \<and> fst (is_locked tid s') = 1 \<and> fst (recursion_depth tid s') = 2
         \<and> owner s' = tid \<and> recursion s' = 2))"
proof (intro conjI impI)
  assume "s_owner t \<noteq> 0 \<and> owner s = s_owner t"
  then show "suspension_destroy t s = Some (s\<lparr>recursion := recursion s + s_recursion t\<rparr>)"
    by (simp add: suspension_destroy_def)
next
  assume "s_owner t \<noteq> 0 \<and> owner s \<noteq> s_owner t"
  then show "suspension_destroy t s =
        map_option (\<lambda>l. s\<lparr>inner := l, owner := s_owner t,
                             recursion := recursion s + s_recursion t\<rparr>)
          (ticket_lock_lock (inner s))"
    by (cases "ticket_lock_lock (inner s)") (simp_all add: suspension_destroy_def)
next
  assume a: "tid \<noteq> 0 \<and> owner s = tid \<and> recursion s = 2
        \<and> next_ticket (inner s) = now_serving (inner s) + 1"
  define s1 where "s1 = snd (suspend tid s)"
  have s1: "s1 = s\<lparr>owner := 0, recursion := 0,
                   inner := (inner s)\<lparr>now_serving := now_serving (inner s) + 1\<rparr>\<rparr>"
    and t: "fst (suspend tid s) = \<lparr>s_owner = tid, s_recursion = 2\<rparr>"
    using a by (simp_all add: s1_def suspend_def ticket_lock_unlock_def)
  define s2 where "s2 = s1\<lparr>inner := (inner s1)\<lparr>next_ticket := next_ticket (inner s1) + 1\<rparr>,
                          owner := tid, recursion := 1\<rparr>"
  have l: "lock tid s1 = Some s2"
    using a by (simp add: s1 s2_def lock_acquire)
  have u: "unlock s2 = s2\<lparr>recursion := 0, owner := 0,
                inner := (inner s2)\<lparr>now_serving := now_serving (inner s2) + 1\<rparr>\<rparr>"
    by (simp add: unlock_def s2_def ticket_lock_unlock_def)
  have d: "\<exists>s'. suspension_destroy (fst (suspend tid s)) (unlock s2) = Some s'
         \<and> fst (is_locked tid s') = 1 \<and> fst (recursion_depth tid s') = 2
         \<and> owner s' = tid \<and> recursion s' = 2"
    using a unfolding t u
    by (simp add: suspension_destroy_def s2_def s1 ticket_lock_lock_free is_locked_def
        recursion_depth_def)
  show "\<exists>s1 s2 s'. snd (suspend tid s) = s1 \<and> lock tid s1 = Some s2
         \<and> suspension_destroy (fst (suspend tid s)) (unlock s2) = Some s'
         \<and> fst (is_locked tid s') = 1 \<and> fst (recursion_depth tid s') = 2
         \<and> owner s' = tid \<and> recursion s' = 2"
    using l d unfolding s1_def by blast
qed

theorem token_restoration_composes_witness:
  "suspension_destroy \<lparr>s_owner = 7, s_recursion = 2\<rparr>
       \<lparr>inner = \<lparr>next_ticket = 6, now_serving = 5\<rparr>, owner = 7, recursion = 1\<rparr>
     = Some \<lparr>inner = \<lparr>next_ticket = 6, now_serving = 5\<rparr>, owner = 7, recursion = 3\<rparr>
   \<and> (\<exists>s1 s2 s'.
      snd (suspend 7 \<lparr>inner = \<lparr>next_ticket = 5, now_serving = 4\<rparr>, owner = 7, recursion = 2\<rparr>) = s1
      \<and> lock 7 s1 = Some s2
      \<and> suspension_destroy
          (fst (suspend 7 \<lparr>inner = \<lparr>next_ticket = 5, now_serving = 4\<rparr>, owner = 7, recursion = 2\<rparr>))
          (unlock s2) = Some s'
      \<and> fst (is_locked 7 s') = 1 \<and> fst (recursion_depth 7 s') = 2)"
proof -
  have 1: "suspension_destroy \<lparr>s_owner = 7, s_recursion = 2\<rparr>
       \<lparr>inner = \<lparr>next_ticket = 6, now_serving = 5\<rparr>, owner = 7, recursion = 1\<rparr>
     = Some \<lparr>inner = \<lparr>next_ticket = 6, now_serving = 5\<rparr>, owner = 7, recursion = 3\<rparr>"
    using conjunct1 [OF token_restoration_composes
      [where t = "\<lparr>s_owner = 7, s_recursion = 2\<rparr>"
         and s = "\<lparr>inner = \<lparr>next_ticket = 6, now_serving = 5\<rparr>, owner = 7, recursion = 1\<rparr>"]]
    by simp
  have 2: "\<exists>s1 s2 s'.
      snd (suspend 7 \<lparr>inner = \<lparr>next_ticket = 5, now_serving = 4\<rparr>, owner = 7, recursion = 2\<rparr>) = s1
      \<and> lock 7 s1 = Some s2
      \<and> suspension_destroy
          (fst (suspend 7 \<lparr>inner = \<lparr>next_ticket = 5, now_serving = 4\<rparr>, owner = 7, recursion = 2\<rparr>))
          (unlock s2) = Some s'
      \<and> fst (is_locked 7 s') = 1 \<and> fst (recursion_depth 7 s') = 2"
    using conjunct2 [OF conjunct2 [OF token_restoration_composes
      [where tid = 7
         and s = "\<lparr>inner = \<lparr>next_ticket = 5, now_serving = 4\<rparr>, owner = 7, recursion = 2\<rparr>"]]]
    by auto
  show ?thesis using 1 2 by blast
qed

text \<open>
  Claim C10. A thread \<open>tid\<close> that owns the lock calls \<open>suspend\<close> twice without locking in
  between. The first call leaves the owner at 0, so the second captures \<open>(0, 0)\<close> and
  leaves the lock as the first call left it; the destructor of the second token returns on
  any lock \<open>s'\<close> and leaves it unchanged. The first token holds \<open>tid\<close> and the depth:
  destroying the second token and then the first restores the owner and the depth (when
  nobody was queued on the inner lock).
\<close>

theorem repeated_suspend_noop:
  assumes "tid \<noteq> 0" and "owner s = tid"
  shows "\<exists>t1 s1 t2 s2. suspend tid s = (t1, s1) \<and> suspend tid s1 = (t2, s2)
           \<and> owner s1 = 0
           \<and> t2 = \<lparr>s_owner = 0, s_recursion = 0\<rparr>
           \<and> s2 = s1
           \<and> suspension_destroy t2 s' = Some s'
           \<and> t1 = \<lparr>s_owner = tid, s_recursion = recursion s\<rparr>
           \<and> (next_ticket (inner s) = now_serving (inner s) + 1 \<longrightarrow>
                Option.bind (suspension_destroy t2 s2) (suspension_destroy t1) =
                  Some (s\<lparr>inner := \<lparr>next_ticket = next_ticket (inner s) + 1,
                                     now_serving = now_serving (inner s) + 1\<rparr>\<rparr>))"
  using assms
  by (simp add: suspend_def suspension_destroy_def ticket_lock_unlock_def ticket_lock_lock_free)

theorem repeated_suspend_noop_witness:
  "\<exists>t1 s1 t2 s2.
      suspend 7 \<lparr>inner = \<lparr>next_ticket = 5, now_serving = 4\<rparr>, owner = 7, recursion = 3\<rparr> = (t1, s1)
      \<and> suspend 7 s1 = (t2, s2)
      \<and> t2 = \<lparr>s_owner = 0, s_recursion = 0\<rparr> \<and> s2 = s1
      \<and> suspension_destroy t2 s2 = Some s2
      \<and> t1 = \<lparr>s_owner = 7, s_recursion = 3\<rparr>
      \<and> Option.bind (suspension_destroy t2 s2) (suspension_destroy t1) =
           Some \<lparr>inner = \<lparr>next_ticket = 6, now_serving = 5\<rparr>, owner = 7, recursion = 3\<rparr>"
proof -
  let ?s = "\<lparr>inner = \<lparr>next_ticket = 5, now_serving = 4\<rparr>, owner = 7, recursion = 3 :: u32\<rparr>"
  obtain t1 s1 t2 s2 where
    h: "suspend 7 ?s = (t1, s1)" "suspend 7 s1 = (t2, s2)"
       "t2 = \<lparr>s_owner = 0, s_recursion = 0\<rparr>" "s2 = s1"
       "suspension_destroy t2 s1 = Some s1" "t1 = \<lparr>s_owner = 7, s_recursion = 3\<rparr>"
       "Option.bind (suspension_destroy t2 s2) (suspension_destroy t1) =
           Some \<lparr>inner = \<lparr>next_ticket = 6, now_serving = 5\<rparr>, owner = 7, recursion = 3\<rparr>"
    using repeated_suspend_noop [of 7 ?s "snd (suspend 7 ?s)"] by auto
  then show ?thesis by blast
qed


section \<open>Reentrancy\<close>

text \<open>
  Claim C4, amended: for every \<open>k\<close> with \<open>1 \<le> k < 2^32\<close>. A thread \<open>tid\<close> calls \<open>lock\<close>
  \<open>k\<close> times in succession on a lock that is unlocked and whose inner lock is free. All
  \<open>k\<close> calls return; the inner lock is taken once, by the first call; \<open>is_locked\<close> is
  true and \<open>recursion_depth\<close> is \<open>k\<close>; one more call would return too and only increment
  the count. After \<open>k\<close> calls of \<open>unlock\<close>, \<open>is_locked\<close> is false and \<open>recursion_depth\<close>
  is 0, and the inner lock has been released once. In any state \<open>s1\<close> whose owner is
  \<open>tid\<close>, any number of calls of \<open>lock\<close> by \<open>tid\<close> return and change the recursion count
  only: the inner lock is skipped.
\<close>

theorem reentrancy:
  assumes "tid \<noteq> 0" and "owner s = 0" and "recursion s = 0"
    and "next_ticket (inner s) = now_serving (inner s)"
    and "1 \<le> k" and "k < 2 ^ 32"
  shows "\<exists>s'. lock_n k tid s = Some s'
           \<and> inner s' = (inner s)\<lparr>next_ticket := next_ticket (inner s) + 1\<rparr>
           \<and> fst (is_locked tid s') = 1
           \<and> unat (fst (recursion_depth tid s')) = k
           \<and> lock tid s' = Some (s'\<lparr>recursion := recursion s' + 1\<rparr>)
           \<and> fst (is_locked tid (unlock_n k s')) = 0
           \<and> fst (recursion_depth tid (unlock_n k s')) = 0
           \<and> unlock_n k s' = s\<lparr>inner := \<lparr>next_ticket = next_ticket (inner s) + 1,
                                             now_serving = now_serving (inner s) + 1\<rparr>\<rparr>
           \<and> (\<forall>s1 j. owner s1 = tid \<longrightarrow>
                 lock_n j tid s1 = Some (s1\<lparr>recursion := recursion s1 + of_nat j\<rparr>))"
proof -
  obtain j where k: "k = Suc j" using assms(5) by (cases k) auto
  define s' where "s' = s\<lparr>inner := (inner s)\<lparr>next_ticket := next_ticket (inner s) + 1\<rparr>,
                          owner := tid, recursion := of_nat k\<rparr>"
  have "lock_n (Suc j) tid s =
     Some (s\<lparr>inner := (inner s)\<lparr>next_ticket := next_ticket (inner s) + 1\<rparr>,
             owner := tid, recursion := recursion s + 1 + of_nat j\<rparr>)"
    using assms(1,2,4) by (intro lock_n_acquire) auto
  then have l: "lock_n k tid s = Some s'"
    using assms(3) unfolding k s'_def by (simp add: add.commute)
  have u: "unat (recursion s') = k"
    using assms(6) by (simp add: s'_def of_nat_inverse)
  have r: "lock tid s' = Some (s'\<lparr>recursion := recursion s' + 1\<rparr>)"
    by (rule lock_reentrant) (simp add: s'_def)
  have n: "unlock_n k s' = s'\<lparr>recursion := 0, owner := 0, inner := ticket_lock_unlock (inner s')\<rparr>"
    using u unfolding k by (rule unlock_n_nested)
  have e: "s'\<lparr>recursion := 0, owner := 0, inner := ticket_lock_unlock (inner s')\<rparr>
           = s\<lparr>inner := \<lparr>next_ticket = next_ticket (inner s) + 1,
                            now_serving = now_serving (inner s) + 1\<rparr>\<rparr>"
    using assms(2,3) by (simp add: s'_def ticket_lock_unlock_def)
  have f: "unlock_n k s' = s\<lparr>inner := \<lparr>next_ticket = next_ticket (inner s) + 1,
                                             now_serving = now_serving (inner s) + 1\<rparr>\<rparr>"
    using n e by simp
  have o: "fst (is_locked tid (unlock_n k s')) = 0 \<and> fst (recursion_depth tid (unlock_n k s')) = 0"
    unfolding f using assms(1,2) by (simp add: is_locked_def recursion_depth_def)
  have h: "inner s' = (inner s)\<lparr>next_ticket := next_ticket (inner s) + 1\<rparr>
           \<and> fst (is_locked tid s') = 1 \<and> fst (recursion_depth tid s') = recursion s'"
    by (simp add: is_locked_def recursion_depth_def s'_def)
  have g: "\<forall>s1 j. owner s1 = tid \<longrightarrow>
             lock_n j tid s1 = Some (s1\<lparr>recursion := recursion s1 + of_nat j\<rparr>)"
    by (simp add: lock_n_reentrant)
  show ?thesis
    using l u r f o h g by simp
qed

theorem reentrancy_witness:
  "\<exists>s'. lock_n 3 7 recursive_ticket_lock_init = Some s'
       \<and> fst (is_locked 7 s') = 1
       \<and> unat (fst (recursion_depth 7 s')) = 3
       \<and> fst (is_locked 7 (unlock_n 3 s')) = 0
       \<and> fst (recursion_depth 7 (unlock_n 3 s')) = 0"
  using reentrancy [of 7 recursive_ticket_lock_init 3]
  by (auto simp: recursive_ticket_lock_init_def ticket_lock_init_def)

text \<open>
  The claim as it is written, for every \<open>k \<ge> 1\<close>, fails at \<open>k = 2^32\<close>: the recursion
  count is a \<^verbatim>\<open>uint32_t\<close> and is 0 again after \<open>2^32\<close> calls of \<open>lock\<close>, so
  \<open>recursion_depth\<close> returns 0 and not \<open>k\<close>.
\<close>

theorem reentrancy_counterexample:
  "lock_n 4294967296 1 recursive_ticket_lock_init =
     Some \<lparr>inner = \<lparr>next_ticket = 1, now_serving = 0\<rparr>, owner = 1, recursion = 0\<rparr>
   \<and> unat (fst (recursion_depth 1
        \<lparr>inner = \<lparr>next_ticket = 1, now_serving = 0\<rparr>, owner = 1, recursion = 0\<rparr>)) = 0
   \<and> unat (fst (recursion_depth 1
        \<lparr>inner = \<lparr>next_ticket = 1, now_serving = 0\<rparr>, owner = 1, recursion = 0\<rparr>)) \<noteq> 4294967296"
proof -
  have "(4294967296::nat) = Suc 4294967295" by simp
  then have "lock_n 4294967296 1 recursive_ticket_lock_init
      = lock_n (Suc 4294967295) 1 recursive_ticket_lock_init" by simp
  also have "\<dots> = Some (recursive_ticket_lock_init
      \<lparr>inner := (inner recursive_ticket_lock_init)
          \<lparr>next_ticket := next_ticket (inner recursive_ticket_lock_init) + 1\<rparr>,
       owner := 1, recursion := recursion recursive_ticket_lock_init + 1 + of_nat 4294967295\<rparr>)"
    by (rule lock_n_acquire)
       (simp_all add: recursive_ticket_lock_init_def ticket_lock_init_def)
  finally have "lock_n 4294967296 1 recursive_ticket_lock_init =
     Some \<lparr>inner = \<lparr>next_ticket = 1, now_serving = 0\<rparr>, owner = 1, recursion = 0\<rparr>"
    by (simp add: recursive_ticket_lock_init_def ticket_lock_init_def)
  then show ?thesis
    by (simp add: recursion_depth_def is_locked_def)
qed

section \<open>The invariant of the recursive lock\<close>

lemma word_add_no_wrap_nonzero:
  fixes a b :: u32
  assumes "unat a + unat b < 2 ^ 32" and "b \<noteq> 0"
  shows "a + b \<noteq> 0"
proof
  assume "a + b = 0"
  then have "unat (a + b) = 0" by simp
  moreover have "unat (a + b) = unat a + unat b"
    using assms(1) by (simp add: unat_add_lem [THEN iffD1])
  ultimately have "unat b = 0" by simp
  then show False using assms(2) by (simp add: unat_eq_0)
qed

lemma lock_preserves_inv:
  assumes "tid \<noteq> 0" and "unat (recursion s) + 1 < 2 ^ 32" and "lock tid s = Some s'"
  shows "lock_inv s'"
proof -
  have nz: "recursion s + 1 \<noteq> 0"
    using word_add_no_wrap_nonzero [of "recursion s" 1] assms(2) by simp
  show ?thesis
  proof (cases "owner s = tid")
    case True
    then show ?thesis using assms nz by (auto simp: lock_reentrant lock_inv_def)
  next
    case False
    then show ?thesis using assms nz
      by (auto simp: lock_def lock_inv_def split: if_splits bind_splits)
  qed
qed

lemma unlock_preserves_inv:
  assumes "lock_inv s" and "owner s \<noteq> 0"
  shows "lock_inv (unlock s)"
  using assms by (auto simp: unlock_def lock_inv_def Let_def)

lemma suspend_preserves_inv:
  assumes "lock_inv s" and "suspend tid s = (t, s')"
  shows "lock_inv s' \<and> token_ok t"
  using assms by (auto simp: suspend_def lock_inv_def token_ok_def split: if_splits)

lemma destroy_preserves_inv:
  assumes "lock_inv s" and "token_ok t"
    and "unat (recursion s) + unat (s_recursion t) < 2 ^ 32"
    and "suspension_destroy t s = Some s'"
  shows "lock_inv s'"
proof (cases "s_owner t = 0")
  case True
  then show ?thesis using assms by (simp add: suspension_destroy_def)
next
  case False
  then have "s_recursion t \<noteq> 0" using assms(2) by (simp add: token_ok_def)
  then have "recursion s + s_recursion t \<noteq> 0"
    using assms(3) by (intro word_add_no_wrap_nonzero)
  then show ?thesis using assms(4) False
    by (auto simp: suspension_destroy_def lock_inv_def split: if_splits bind_splits)
qed

lemma list_all_remove: "list_all P xs \<Longrightarrow> list_all P (take i xs @ drop (Suc i) xs)"
  by (auto simp: list_all_iff dest: in_set_takeD in_set_dropD)

lemma exec_preserves_inv:
  assumes "system_inv c" and "bounded_contract x c" and "exec x c = Some c'"
  shows "system_inv c'"
proof (cases x)
  case (Lock tid)
  then show ?thesis using assms
    by (auto simp: system_inv_def bounded_contract_def intro: lock_preserves_inv)
next
  case (Unlock tid)
  then show ?thesis using assms
    by (auto simp: system_inv_def bounded_contract_def intro: unlock_preserves_inv)
next
  case (Suspend tid)
  then show ?thesis using assms
    by (auto simp: system_inv_def bounded_contract_def split: prod.splits
        dest: suspend_preserves_inv)
next
  case (Destroy i)
  then have "token_ok (tokens c ! i)"
    using assms(1,2) by (simp add: system_inv_def bounded_contract_def list_all_length)
  moreover have inv: "lock_inv (the_lock c)" and toks: "list_all token_ok (tokens c)"
    using assms(1) by (simp_all add: system_inv_def)
  moreover have nw: "unat (recursion (the_lock c)) + unat (s_recursion (tokens c ! i)) < 2 ^ 32"
    using assms(2) Destroy by (simp add: bounded_contract_def)
  moreover obtain l where l: "suspension_destroy (tokens c ! i) (the_lock c) = Some l"
    and c': "c' = \<lparr>the_lock = l, tokens = take i (tokens c) @ drop (Suc i) (tokens c)\<rparr>"
    using assms(3) Destroy by auto
  ultimately have "lock_inv l" by (blast intro: destroy_preserves_inv)
  then show ?thesis using c' list_all_remove [OF toks, of i]
    by (simp add: system_inv_def)
qed

lemma run_preserves_inv:
  "system_inv c \<Longrightarrow> run bounded_contract xs c = Some c' \<Longrightarrow> system_inv c'"
proof (induction xs arbitrary: c)
  case Nil
  then show ?case by simp
next
  case (Cons x xs)
  from Cons.prems(2) have ok: "bounded_contract x c"
    by (simp split: if_splits)
  with Cons.prems(2) obtain c1 where c1: "exec x c = Some c1" "run bounded_contract xs c1 = Some c'"
    by (cases "exec x c") simp_all
  have "system_inv c1" using Cons.prems(1) ok c1(1) by (rule exec_preserves_inv)
  then show ?case using c1(2) by (rule Cons.IH)
qed

lemma system_inv_init: "system_inv system_init"
  by (simp add: system_inv_def system_init_def lock_inv_def recursive_ticket_lock_init_def)

lemma run_lock_reentrant:
  "tid \<noteq> 0 \<Longrightarrow> owner (the_lock c) = tid \<Longrightarrow>
   run contract (replicate k (Lock tid)) c =
     Some (c\<lparr>the_lock := (the_lock c)\<lparr>recursion := recursion (the_lock c) + of_nat k\<rparr>\<rparr>)"
  by (induction k arbitrary: c) (simp_all add: lock_reentrant add.assoc add.commute)

lemma run_lock_from_init:
  assumes "tid \<noteq> 0"
  shows "run contract (replicate (Suc k) (Lock tid)) system_init =
     Some \<lparr>the_lock = \<lparr>inner = \<lparr>next_ticket = 1, now_serving = 0\<rparr>, owner = tid,
                        recursion = 1 + of_nat k\<rparr>, tokens = []\<rparr>"
proof -
  let ?c1 = "\<lparr>the_lock = \<lparr>inner = \<lparr>next_ticket = 1, now_serving = 0\<rparr>, owner = tid,
                        recursion = 1\<rparr>, tokens = []\<rparr>"
  have e: "exec (Lock tid) system_init = Some ?c1"
    using assms
    by (simp add: system_init_def recursive_ticket_lock_init_def ticket_lock_init_def
        lock_acquire)
  have "run contract (replicate (Suc k) (Lock tid)) system_init
      = Option.bind (exec (Lock tid) system_init) (run contract (replicate k (Lock tid)))"
    using assms by (simp del: exec.simps)
  also have "\<dots> = run contract (replicate k (Lock tid)) ?c1"
    unfolding e by simp
  also have "\<dots> = Some (?c1\<lparr>the_lock := (the_lock ?c1)\<lparr>recursion := recursion (the_lock ?c1) + of_nat k\<rparr>\<rparr>)"
    using assms by (intro run_lock_reentrant) simp_all
  finally show ?thesis by simp
qed

text \<open>
  Claim C5, amended: the sequences are those that respect the contract and in which no
  \<open>lock\<close> and no destruction of a token wraps the 32-bit recursion count around
  (\<open>bounded_contract\<close>). The constructed lock satisfies the invariant; every operation
  that is allowed and returns preserves it (together with the fact that every live token
  holds either \<open>(0, 0)\<close> or an owner and a count that are both not 0); so in every state
  reached from the constructed lock, \<open>recursion > 0\<close> holds if and only if the owner is
  not 0.
\<close>

theorem state_invariant:
  "system_inv system_init
   \<and> (system_inv c \<and> bounded_contract x c \<and> exec x c = Some c' \<longrightarrow> system_inv c')
   \<and> (run bounded_contract xs system_init = Some c'' \<longrightarrow>
        (0 < recursion (the_lock c'')) = (owner (the_lock c'') \<noteq> 0))"
proof (intro conjI impI)
  show "system_inv system_init" by (rule system_inv_init)
next
  assume "system_inv c \<and> bounded_contract x c \<and> exec x c = Some c'"
  then show "system_inv c'" using exec_preserves_inv by blast
next
  assume "run bounded_contract xs system_init = Some c''"
  then have "system_inv c''" using run_preserves_inv system_inv_init by blast
  then show "(0 < recursion (the_lock c'')) = (owner (the_lock c'') \<noteq> 0)"
    by (simp add: system_inv_def lock_inv_def word_gt_0)
qed



theorem state_invariant_witness:
  "run bounded_contract [Lock 7, Lock 7, Suspend 7, Lock 9, Unlock 9, Destroy 0, Unlock 7]
      system_init
     = Some \<lparr>the_lock = \<lparr>inner = \<lparr>next_ticket = 3, now_serving = 2\<rparr>,
                           owner = 7, recursion = 1\<rparr>, tokens = []\<rparr>
   \<and> (0 < recursion \<lparr>inner = \<lparr>next_ticket = 3, now_serving = 2\<rparr>, owner = 7, recursion = 1 :: u32\<rparr>)
     = (owner \<lparr>inner = \<lparr>next_ticket = 3, now_serving = 2\<rparr>, owner = 7 :: u32, recursion = 1\<rparr> \<noteq> 0)"
proof -
  let ?xs = "[Lock 7, Lock 7, Suspend 7, Lock 9, Unlock 9, Destroy 0, Unlock 7]"
  let ?c = "\<lparr>the_lock = \<lparr>inner = \<lparr>next_ticket = 3, now_serving = 2\<rparr>,
                           owner = 7, recursion = 1\<rparr>, tokens = []\<rparr>"
  have r: "run bounded_contract ?xs system_init = Some ?c"
    by (simp add: bounded_contract_def system_init_def recursive_ticket_lock_init_def
        ticket_lock_init_def lock_def unlock_def suspend_def suspension_destroy_def
        ticket_lock_lock_def ticket_lock_unlock_def Let_def)
  from conjunct2 [OF conjunct2 [OF state_invariant [where xs = ?xs and c'' = ?c]]] r
  have "(0 < recursion (the_lock ?c)) = (owner (the_lock ?c) \<noteq> 0)" by blast
  then show ?thesis using r by simp
qed

text \<open>
  The claim as it is written fails: \<open>2^32\<close> calls of \<open>lock\<close> by the thread 1 respect
  the contract, and they leave the owner at 1 and the recursion count, a \<^verbatim>\<open>uint32_t\<close>,
  at 0.
\<close>

theorem state_invariant_counterexample:
  "run contract (replicate 4294967296 (Lock 1)) system_init =
     Some \<lparr>the_lock = \<lparr>inner = \<lparr>next_ticket = 1, now_serving = 0\<rparr>, owner = 1, recursion = 0\<rparr>,
           tokens = []\<rparr>
   \<and> \<not> ((0 < recursion \<lparr>inner = \<lparr>next_ticket = 1, now_serving = 0\<rparr>, owner = 1 :: u32,
                          recursion = 0 :: u32\<rparr>)
        = (owner \<lparr>inner = \<lparr>next_ticket = 1, now_serving = 0\<rparr>, owner = 1 :: u32,
                  recursion = 0 :: u32\<rparr> \<noteq> 0))"
proof -
  have n: "(4294967296::nat) = Suc 4294967295" by simp
  have z: "(1 + of_nat 4294967295 :: u32) = 0" by simp
  have "run contract (replicate (Suc 4294967295) (Lock 1)) system_init =
     Some \<lparr>the_lock = \<lparr>inner = \<lparr>next_ticket = 1, now_serving = 0\<rparr>, owner = 1,
                        recursion = 1 + of_nat 4294967295\<rparr>, tokens = []\<rparr>"
    by (rule run_lock_from_init) simp
  then have "run contract (replicate 4294967296 (Lock 1)) system_init =
     Some \<lparr>the_lock = \<lparr>inner = \<lparr>next_ticket = 1, now_serving = 0\<rparr>, owner = 1,
                        recursion = 0\<rparr>, tokens = []\<rparr>"
    unfolding z n [symmetric] .
  then show ?thesis by simp
qed

section \<open>The ticket lock under interleaving: the invariant holds\<close>

lemma issued_snoc: "issued (l @ [(t, a)]) = issued l @ (if is_issue a then [t] else [])"
  by (simp add: issued_def)

lemma entered_snoc: "entered (l @ [(t, a)]) = entered l @ (if is_enter a then [t] else [])"
  by (simp add: entered_def)

lemma released_snoc: "released (l @ [(t, a)]) = released l @ (if is_release a then [t] else [])"
  by (simp add: released_def)

lemma distinct_u32_length:
  fixes q :: "u32 list"
  assumes "distinct q"
  shows "length q \<le> 2 ^ 32"
proof -
  have "length q = card (set q)" using assms by (simp add: distinct_card)
  also have "\<dots> \<le> card (UNIV :: u32 set)" by (rule card_mono) simp_all
  also have "\<dots> = 2 ^ 32" by (simp add: card_word)
  finally show ?thesis .
qed

lemma of_nat_u32_window:
  assumes "r \<le> n" and "n < r + 2 ^ 32" and "(of_nat n :: u32) = of_nat r"
  shows "n = r"
proof -
  have "(of_nat (n - r) :: u32) = of_nat n - of_nat r"
    using assms(1) by simp
  then have "(of_nat (n - r) :: u32) = 0" using assms(3) by simp
  then have "2 ^ 32 dvd (n - r)" by (simp add: word_of_nat_eq_0_iff)
  moreover have "n - r < 2 ^ 32" using assms(1,2) by simp
  ultimately have "n - r = 0" by (meson dvd_imp_le not_less zero_less_iff_neq_zero)
  then show ?thesis using assms(1) by simp
qed

lemma queued_head:
  assumes "distinct (drop r I)" and "queued I r t k" and "k = of_nat r"
  shows "I ! r = t \<and> r < length I"
proof -
  obtain n where n: "r \<le> n" "n < length I" "I ! n = t" "k = of_nat n"
    using assms(2) by (auto simp: queued_def)
  have "length (drop r I) \<le> 2 ^ 32" using assms(1) by (rule distinct_u32_length)
  then have "n < r + 2 ^ 32" using n(1,2) by simp
  then have "n = r" using n(1,4) assms(3) by (intro of_nat_u32_window) simp_all
  then show ?thesis using n by simp
qed

lemma set_pc_simps [simp]:
  "threads (set_pc t p s) = (threads s)(t := (threads s t)\<lparr>pc := p\<rparr>)"
  "lck (set_pc t p s) = lck s"
  "counter (set_pc t p s) = counter s"
  "waiters (set_pc t p s) = waiters s"
  by (simp_all add: set_pc_def)

lemma log_inv_bounds:
  assumes "log_inv I E R"
  shows "length R \<le> length I" and "length E \<le> length I"
proof -
  have "length R = length (take (length R) I)" using assms by (simp add: log_inv_def)
  then show "length R \<le> length I" by simp
  have "length E = length (take (length E) I)" using assms by (simp add: log_inv_def)
  then show "length E \<le> length I" by simp
qed

lemma queue_inv_set_pc:
  assumes inv: "queue_inv rounds I E R s"
    and p: "pc_inv I (length R) (length E) t p'"
    and cs: "in_critical_section (pc (threads s t)) \<Longrightarrow> in_critical_section p'"
    and idle: "pc (threads s t) \<noteq> Idle"
    and un: "(p' = UnlockNotify) = (pc (threads s t) = UnlockNotify)"
    and ui: "(p' = UnlockInc) = (pc (threads s t) = UnlockInc)"
    and cw: "\<And>v. p' = CritWrite v \<Longrightarrow> v = counter s"
  shows "queue_inv rounds I E R (set_pc t p' (s\<lparr>waiters := ws\<rparr>))"
proof -
  let ?s = "set_pc t p' (s\<lparr>waiters := ws\<rparr>)"
  have 1: "log_inv I E R" and 2: "counters_inv I R s"
    and 3: "threads_inv I (length R) (length E) s"
    and 4: "rounds_inv rounds R s" and 5: "counter_inv I (length R) (length E) s"
    using inv by (simp_all add: queue_inv_def)
  have "counters_inv I R ?s" using 2 by (simp add: counters_inv_def)
  moreover have "threads_inv I (length R) (length E) ?s"
    using 3 p cs by (auto simp: threads_inv_def)
  moreover have "rounds_inv rounds R ?s"
    using 4 idle un by (auto simp: rounds_inv_def)
  moreover have "counter_inv I (length R) (length E) ?s"
    using 5 ui cw by (auto simp: counter_inv_def)
  ultimately show ?thesis using 1 by (simp add: queue_inv_def)
qed

lemma queue_inv_waiters:
  "queue_inv rounds I E R (s\<lparr>waiters := ws\<rparr>) = queue_inv rounds I E R s"
  by (simp add: queue_inv_def counters_inv_def threads_inv_def rounds_inv_def counter_inv_def)

text \<open>Waking a blocked thread keeps the invariant: the thread keeps its ticket.\<close>

lemma queue_inv_wake:
  assumes "queue_inv rounds I E R s"
  shows "queue_inv rounds I E R (wake v s)"
proof (cases "pc (threads s v)")
  case (Blocked k c)
  have 3: "threads_inv I (length R) (length E) s"
    using assms by (simp add: queue_inv_def)
  then have "pc_inv I (length R) (length E) v (Blocked k c)"
    using Blocked by (auto simp: threads_inv_def dest: spec [of _ v])
  then have "pc_inv I (length R) (length E) v (SlowLoad k)" by simp
  then have "queue_inv rounds I E R (set_pc v (SlowLoad k) (s\<lparr>waiters := removeAll v (waiters s)\<rparr>))"
    using assms Blocked by (intro queue_inv_set_pc) simp_all
  then show ?thesis using Blocked by (simp add: wake_def)
qed (simp_all add: wake_def assms queue_inv_waiters)

text \<open>
  The load of \<^verbatim>\<open>_now_serving\<close>: a thread that reads its own ticket is the head of the
  queue, and nobody is in the critical section.
\<close>

lemma pc_inv_after_load:
  assumes inv: "queue_inv rounds I E R s"
    and q: "queued I (length R) t k"
    and ncs: "\<not> in_critical_section (pc (threads s t))"
  shows "now_serving (lck s) = k \<longrightarrow> I ! length R = t \<and> length E = length R"
proof
  assume eq: "now_serving (lck s) = k"
  have 1: "log_inv I E R" and 2: "counters_inv I R s"
    and 3: "threads_inv I (length R) (length E) s"
    using inv by (simp_all add: queue_inv_def)
  have k: "k = of_nat (length R)" using 2 eq by (simp add: counters_inv_def)
  have d: "distinct (drop (length R) I)" using 3 by (simp add: threads_inv_def)
  have h: "I ! length R = t" using queued_head [OF d q k] by simp
  have "length E \<noteq> Suc (length R)"
  proof
    assume "length E = Suc (length R)"
    then have "in_critical_section (pc (threads s (I ! length R)))"
      using 3 by (simp add: threads_inv_def)
    then show False using h ncs by simp
  qed
  then have "length E = length R" using 1 by (auto simp: log_inv_def)
  then show "I ! length R = t \<and> length E = length R" using h by simp
qed

text \<open>Taking a ticket: the thread joins the queue at its end.\<close>

lemma queued_less: "queued I r t k \<Longrightarrow> r < length I"
  by (auto simp: queued_def)

lemma pc_inv_issue:
  assumes "pc_inv I r e t' p" and "t' \<noteq> t" and "r \<le> length I"
  shows "pc_inv (I @ [t]) r e t' p"
proof -
  have q: "queued (I @ [t]) r t' k" if "queued I r t' k" for k
    using that by (auto simp: queued_def nth_append)
  show ?thesis
    using assms by (cases p) (auto simp: holds_def nth_append q dest: queued_less)
qed

lemma queue_inv_issue:
  assumes inv: "queue_inv rounds I E R s"
    and idle: "pc (threads s t) = Idle"
    and rem: "remaining (threads s t) \<noteq> 0"
  shows "queue_inv rounds (I @ [t]) E R
           (set_pc t (LockLoad (next_ticket (lck s)))
              (s\<lparr>lck := (lck s)\<lparr>next_ticket := next_ticket (lck s) + 1\<rparr>\<rparr>))"
proof -
  let ?s = "set_pc t (LockLoad (next_ticket (lck s)))
              (s\<lparr>lck := (lck s)\<lparr>next_ticket := next_ticket (lck s) + 1\<rparr>\<rparr>)"
  let ?r = "length R" and ?e = "length E"
  have 1: "log_inv I E R" and 2: "counters_inv I R s"
    and 3: "threads_inv I ?r ?e s"
    and 4: "rounds_inv rounds R s" and 5: "counter_inv I ?r ?e s"
    using inv by (simp_all add: queue_inv_def)
  have rI: "?r \<le> length I" and eI: "?e \<le> length I" using log_inv_bounds [OF 1] .
  have tq: "t \<notin> set (drop ?r I)"
    using 3 idle by (auto simp: threads_inv_def dest: spec [of _ t])
  have "log_inv (I @ [t]) E R"
    using 1 rI eI by (simp add: log_inv_def)
  moreover have "counters_inv (I @ [t]) R ?s"
    using 2 by (simp add: counters_inv_def)
  moreover have "threads_inv (I @ [t]) ?r ?e ?s"
  proof -
    have "distinct (drop ?r (I @ [t]))"
      using 3 tq rI by (simp add: threads_inv_def)
    moreover have "pc_inv (I @ [t]) ?r ?e u (pc (threads ?s u))" for u
    proof (cases "u = t")
      case True
      have "queued (I @ [t]) ?r t (of_nat (length I))"
        using rI by (auto simp: queued_def nth_append intro!: exI [of _ "length I"])
      then show ?thesis using True 2 by (simp add: counters_inv_def)
    next
      case False
      have "pc_inv I ?r ?e u (pc (threads s u))" using 3 by (simp add: threads_inv_def)
      then show ?thesis using False rI by (simp add: pc_inv_issue)
    qed
    moreover have "in_critical_section (pc (threads ?s ((I @ [t]) ! ?r)))" if "?e = Suc ?r"
    proof -
      have c: "in_critical_section (pc (threads s (I ! ?r)))"
        using 3 that by (simp add: threads_inv_def)
      then have "I ! ?r \<noteq> t" using idle by auto
      moreover have "(I @ [t]) ! ?r = I ! ?r" using that eI by (simp add: nth_append)
      ultimately show ?thesis using c by simp
    qed
    ultimately show ?thesis by (simp add: threads_inv_def)
  qed
  moreover have "rounds_inv rounds R ?s"
    using 4 idle rem by (auto simp: rounds_inv_def)
  moreover have "counter_inv (I @ [t]) ?r ?e ?s"
  proof -
    have "(I @ [t]) ! ?r = I ! ?r" if "?e = Suc ?r"
      using that eI by (simp add: nth_append)
    moreover have "pc (threads s (I ! ?r)) = UnlockInc \<Longrightarrow> I ! ?r \<noteq> t"
      using idle by auto
    ultimately show ?thesis using 5 idle by (auto simp: counter_inv_def)
  qed
  ultimately show ?thesis by (simp add: queue_inv_def)
qed

text \<open>The return of \<^verbatim>\<open>lock\<close>: the head of the queue enters its critical section.\<close>

lemma queue_inv_enter:
  assumes inv: "queue_inv rounds I E R s"
    and pc: "pc (threads s t) = LockTest k k \<or> pc (threads s t) = SlowTest k k"
  shows "queue_inv rounds I (E @ [t]) R (set_pc t CritRead s)"
proof -
  let ?s = "set_pc t CritRead s"
  let ?r = "length R" and ?e = "length E"
  have 1: "log_inv I E R" and 2: "counters_inv I R s"
    and 3: "threads_inv I ?r ?e s"
    and 4: "rounds_inv rounds R s" and 5: "counter_inv I ?r ?e s"
    using inv by (simp_all add: queue_inv_def)
  have "pc_inv I ?r ?e t (pc (threads s t))" using 3 by (simp add: threads_inv_def)
  then have q: "queued I ?r t k" and h: "I ! ?r = t" and e: "?e = ?r"
    using pc by auto
  have rI: "?r < length I" using q by (rule queued_less)
  have nocs: "\<not> in_critical_section (pc (threads s u))" for u
  proof
    assume "in_critical_section (pc (threads s u))"
    moreover have "pc_inv I ?r ?e u (pc (threads s u))" using 3 by (simp add: threads_inv_def)
    ultimately have "holds I ?r ?e u" by (cases "pc (threads s u)") simp_all
    then show False using e by (simp add: holds_def)
  qed
  have "log_inv I (E @ [t]) R"
  proof -
    have "take (Suc ?r) I = take ?r I @ [t]"
      using rI h by (simp add: take_Suc_conv_app_nth)
    then show ?thesis using 1 e by (simp add: log_inv_def)
  qed
  moreover have "counters_inv I R ?s" using 2 by (simp add: counters_inv_def)
  moreover have "threads_inv I ?r (length (E @ [t])) ?s"
  proof -
    have "pc_inv I ?r (Suc ?e) u (pc (threads ?s u))" for u
    proof (cases "u = t")
      case True
      then show ?thesis using rI h e by (simp add: holds_def)
    next
      case False
      have p: "pc_inv I ?r ?e u (pc (threads s u))" using 3 by (simp add: threads_inv_def)
      show ?thesis
      proof (cases "pc (threads s u)")
        case (LockTest k' c')
        then show ?thesis using p False h by auto
      next
        case (SlowTest k' c')
        then show ?thesis using p False h by auto
      qed (use p False nocs [of u] in auto)
    qed
    then show ?thesis using 3 h by (simp add: threads_inv_def)
  qed
  moreover have "rounds_inv rounds R ?s"
    using 4 pc by (auto simp: rounds_inv_def)
  moreover have "counter_inv I ?r (length (E @ [t])) ?s"
    using 5 e h nocs by (auto simp: counter_inv_def)
  ultimately show ?thesis by (simp add: queue_inv_def)
qed

text \<open>The write of the counter: the value read is still the value of the counter.\<close>

lemma queue_inv_write:
  assumes inv: "queue_inv rounds I E R s"
    and pc: "pc (threads s t) = CritWrite v"
  shows "queue_inv rounds I E R (set_pc t UnlockInc (s\<lparr>counter := v + 1\<rparr>))"
proof -
  let ?s = "set_pc t UnlockInc (s\<lparr>counter := v + 1\<rparr>)"
  let ?r = "length R" and ?e = "length E"
  have 1: "log_inv I E R" and 2: "counters_inv I R s"
    and 3: "threads_inv I ?r ?e s"
    and 4: "rounds_inv rounds R s" and 5: "counter_inv I ?r ?e s"
    using inv by (simp_all add: queue_inv_def)
  have pt: "pc_inv I ?r ?e u (pc (threads s u))" for u using 3 by (simp add: threads_inv_def)
  have h: "holds I ?r ?e t" using pt [of t] pc by simp
  have hd: "I ! ?r = t" and e: "?e = Suc ?r" using h by (simp_all add: holds_def)
  have cv: "counter s = v" using 5 pc by (auto simp: counter_inv_def)
  have cr: "counter s = ?r" using 5 pc hd by (simp add: counter_inv_def)
  have only: "u = t" if "pc (threads s u) = CritWrite v'" for u v'
    using pt [of u] that h by (simp add: holds_def)
  have "counters_inv I R ?s" using 2 by (simp add: counters_inv_def)
  moreover have "threads_inv I ?r ?e ?s"
    using 3 h by (auto simp: threads_inv_def)
  moreover have "rounds_inv rounds R ?s"
    using 4 pc by (auto simp: rounds_inv_def)
  moreover have "counter_inv I ?r ?e ?s"
    using cv cr hd e only by (auto simp: counter_inv_def)
  ultimately show ?thesis using 1 by (simp add: queue_inv_def)
qed

text \<open>The increment of \<^verbatim>\<open>_now_serving\<close>: the head leaves the queue.\<close>

lemma queue_inv_release:
  assumes inv: "queue_inv rounds I E R s"
    and pc: "pc (threads s t) = UnlockInc"
  shows "queue_inv rounds I E (R @ [t])
           (set_pc t UnlockNotify
              (s\<lparr>lck := (lck s)\<lparr>now_serving := now_serving (lck s) + 1\<rparr>\<rparr>))"
proof -
  let ?s = "set_pc t UnlockNotify
              (s\<lparr>lck := (lck s)\<lparr>now_serving := now_serving (lck s) + 1\<rparr>\<rparr>)"
  let ?r = "length R" and ?e = "length E"
  have 1: "log_inv I E R" and 2: "counters_inv I R s"
    and 3: "threads_inv I ?r ?e s"
    and 4: "rounds_inv rounds R s" and 5: "counter_inv I ?r ?e s"
    using inv by (simp_all add: queue_inv_def)
  have pt: "pc_inv I ?r ?e u (pc (threads s u))" for u using 3 by (simp add: threads_inv_def)
  have "holds I ?r ?e t" using pt [of t] pc by simp
  then have rI: "?r < length I" and hd: "I ! ?r = t" and e: "?e = Suc ?r"
    by (simp_all add: holds_def)
  have d: "distinct (drop ?r I)" using 3 by (simp add: threads_inv_def)
  have dr: "drop ?r I = t # drop (Suc ?r) I"
    using Cons_nth_drop_Suc [OF rI] hd by simp
  have tq: "t \<notin> set (drop (Suc ?r) I)" and d': "distinct (drop (Suc ?r) I)"
    using d unfolding dr by simp_all
  have "log_inv I E (R @ [t])"
  proof -
    have "take (Suc ?r) I = take ?r I @ [t]"
      using rI hd by (simp add: take_Suc_conv_app_nth)
    then show ?thesis using 1 e by (simp add: log_inv_def)
  qed
  moreover have "counters_inv I (R @ [t]) ?s"
    using 2 by (simp add: counters_inv_def)
  moreover have "threads_inv I (length (R @ [t])) ?e ?s"
  proof -
    have "pc_inv I (Suc ?r) ?e u (pc (threads ?s u))" for u
    proof (cases "u = t")
      case True
      then show ?thesis using tq by simp
    next
      case False
      have sub: "u \<notin> set (drop (Suc ?r) I)" if "u \<notin> set (drop ?r I)"
        using that unfolding dr by simp
      have qu: "queued I (Suc ?r) u k" if qk: "queued I ?r u k" for k
      proof -
        obtain n where n: "?r \<le> n" "n < length I" "I ! n = u" "k = of_nat n"
          using qk by (auto simp: queued_def)
        have "n \<noteq> ?r" using n(3) hd False by auto
        then have "Suc ?r \<le> n" using n(1) by simp
        then show ?thesis unfolding queued_def using n(2-4) by blast
      qed
      have nh: "\<not> holds I ?r ?e u" using hd False by (simp add: holds_def)
      show ?thesis
        using pt [of u] False e sub qu nh by (cases "pc (threads s u)") auto
    qed
    then show ?thesis using d' e by (simp add: threads_inv_def)
  qed
  moreover have "rounds_inv rounds (R @ [t]) ?s"
    using 4 pc by (auto simp: rounds_inv_def)
  moreover have "counter_inv I (length (R @ [t])) ?e ?s"
  proof -
    have "counter s = Suc ?r" using 5 pc hd e by (simp add: counter_inv_def)
    moreover have "u = t" if "pc (threads s u) = CritWrite v" for u v
      using pt [of u] that hd by (simp add: holds_def)
    ultimately show ?thesis using e pc by (auto simp: counter_inv_def)
  qed
  ultimately show ?thesis by (simp add: queue_inv_def)
qed

text \<open>The end of a round.\<close>

lemma queue_inv_finish_round:
  assumes inv: "queue_inv rounds I E R s"
    and pc: "pc (threads s t) = UnlockNotify"
  shows "queue_inv rounds I E R (finish_round t s)"
proof -
  let ?s = "finish_round t s"
  let ?r = "length R" and ?e = "length E"
  have 1: "log_inv I E R" and 2: "counters_inv I R s"
    and 3: "threads_inv I ?r ?e s"
    and 4: "rounds_inv rounds R s" and 5: "counter_inv I ?r ?e s"
    using inv by (simp_all add: queue_inv_def)
  have th: "threads ?s = (threads s)(t := \<lparr>pc = Idle, remaining = remaining (threads s t) - 1\<rparr>)"
    and lk: "lck ?s = lck s" and ct: "counter ?s = counter s"
    by (simp_all add: finish_round_def)
  have pos: "0 < remaining (threads s t)" using 4 pc by (simp add: rounds_inv_def)
  have "counters_inv I R ?s" using 2 by (simp add: counters_inv_def lk)
  moreover have "threads_inv I ?r ?e ?s"
    using 3 pc by (auto simp: threads_inv_def th dest: spec [of _ t])
  moreover have "rounds_inv rounds R ?s"
  proof -
    have "count_list R t + remaining (threads s t) = rounds t + 1"
      using 4 pc by (simp add: rounds_inv_def)
    then have "count_list R t + (remaining (threads s t) - 1) = rounds t"
      using pos by simp
    then show ?thesis using 4 by (auto simp: rounds_inv_def th)
  qed
  moreover have "counter_inv I ?r ?e ?s"
    using 5 pc by (auto simp: counter_inv_def th ct)
  ultimately show ?thesis using 1 by (simp add: queue_inv_def)
qed

lemma wake_keeps_pc:
  assumes "pc (threads s t) = UnlockNotify"
  shows "pc (threads (wake v s) t) = UnlockNotify"
proof (cases "pc (threads s v)")
  case (Blocked k c)
  then have "v \<noteq> t" using assms by auto
  then show ?thesis using Blocked assms by (simp add: wake_def)
qed (simp_all add: wake_def assms)

lemma thread_step_preserves:
  assumes inv: "queue_inv rounds (issued l) (entered l) (released l) s"
    and p: "pc (threads s t) = p"
    and st: "thread_step t w p s = Some (a, s')"
  shows "queue_inv rounds (issued (l @ [(t, a)])) (entered (l @ [(t, a)]))
           (released (l @ [(t, a)])) s'"
proof -
  let ?I = "issued l" and ?E = "entered l" and ?R = "released l"
  have 3: "threads_inv ?I (length ?R) (length ?E) s"
    using inv by (simp add: queue_inv_def)
  have pt: "pc_inv ?I (length ?R) (length ?E) t p"
    using 3 p by (auto simp: threads_inv_def)
  note snoc = issued_snoc entered_snoc released_snoc
  show ?thesis
  proof (cases p)
    case Idle
    have rem: "remaining (threads s t) \<noteq> 0"
      and a: "a = FetchAdd NextTicket memory_order_relaxed (next_ticket (lck s))"
      and s': "s' = set_pc t (LockLoad (next_ticket (lck s)))
                 (s\<lparr>lck := (lck s)\<lparr>next_ticket := next_ticket (lck s) + 1\<rparr>\<rparr>)"
      using st unfolding Idle by (simp_all split: if_splits)
    have "queue_inv rounds (?I @ [t]) ?E ?R s'"
      unfolding s' using inv p [unfolded Idle] rem by (rule queue_inv_issue)
    then show ?thesis by (simp add: snoc a)
  next
    case (LockLoad k)
    have a: "a = Load NowServing memory_order_acquire (now_serving (lck s))"
      and s': "s' = set_pc t (LockTest k (now_serving (lck s))) s"
      using st unfolding LockLoad by simp_all
    have "pc_inv ?I (length ?R) (length ?E) t (LockTest k (now_serving (lck s)))"
      using pt LockLoad pc_inv_after_load [OF inv, of t k] p by auto
    then have "queue_inv rounds ?I ?E ?R (set_pc t (LockTest k (now_serving (lck s))) (s\<lparr>waiters := waiters s\<rparr>))"
      using p LockLoad by (intro queue_inv_set_pc [OF inv]) simp_all
    then show ?thesis by (simp add: snoc a s')
  next
    case (LockTest k c)
    show ?thesis
    proof (cases "k = c")
      case True
      have a: "a = LockReturns" and s': "s' = set_pc t CritRead s"
        using st unfolding LockTest True by simp_all
      have "pc (threads s t) = LockTest c c \<or> pc (threads s t) = SlowTest c c"
        using p LockTest True by simp
      with inv have "queue_inv rounds ?I (?E @ [t]) ?R s'"
        unfolding s' by (rule queue_inv_enter)
      then show ?thesis by (simp add: snoc a)
    next
      case False
      have a: "a = LockWaits" and s': "s' = set_pc t (SlowWait k c) s"
        using st False unfolding LockTest by simp_all
      have "queue_inv rounds ?I ?E ?R (set_pc t (SlowWait k c) (s\<lparr>waiters := waiters s\<rparr>))"
        using p LockTest pt by (intro queue_inv_set_pc [OF inv]) simp_all
      then show ?thesis by (simp add: snoc a s')
    qed
  next
    case (SlowWait k c)
    have a: "a = AtomicWait NowServing c"
      and s': "s' = (if now_serving (lck s) \<noteq> c then set_pc t (SlowLoad k) s
                     else set_pc t (Blocked k c) (s\<lparr>waiters := waiters s @ [t]\<rparr>))"
      using st unfolding SlowWait by (auto simp: atomic_wait_def)
    have "queue_inv rounds ?I ?E ?R (set_pc t (SlowLoad k) (s\<lparr>waiters := waiters s\<rparr>))"
      using p SlowWait pt by (intro queue_inv_set_pc [OF inv]) simp_all
    moreover have "queue_inv rounds ?I ?E ?R (set_pc t (Blocked k c) (s\<lparr>waiters := waiters s @ [t]\<rparr>))"
      using p SlowWait pt by (intro queue_inv_set_pc [OF inv]) simp_all
    ultimately have "queue_inv rounds ?I ?E ?R s'" unfolding s' by simp
    then show ?thesis by (simp add: snoc a)
  next
    case (Blocked k c)
    then show ?thesis using st by simp
  next
    case (SlowLoad k)
    have a: "a = Load NowServing memory_order_acquire (now_serving (lck s))"
      and s': "s' = set_pc t (SlowTest k (now_serving (lck s))) s"
      using st unfolding SlowLoad by simp_all
    have "pc_inv ?I (length ?R) (length ?E) t (SlowTest k (now_serving (lck s)))"
      using pt SlowLoad pc_inv_after_load [OF inv, of t k] p by auto
    then have "queue_inv rounds ?I ?E ?R (set_pc t (SlowTest k (now_serving (lck s))) (s\<lparr>waiters := waiters s\<rparr>))"
      using p SlowLoad by (intro queue_inv_set_pc [OF inv]) simp_all
    then show ?thesis by (simp add: snoc a s')
  next
    case (SlowTest k c)
    show ?thesis
    proof (cases "k = c")
      case True
      have a: "a = LockReturns" and s': "s' = set_pc t CritRead s"
        using st unfolding SlowTest True by simp_all
      have "pc (threads s t) = LockTest c c \<or> pc (threads s t) = SlowTest c c"
        using p SlowTest True by simp
      with inv have "queue_inv rounds ?I (?E @ [t]) ?R s'"
        unfolding s' by (rule queue_inv_enter)
      then show ?thesis by (simp add: snoc a)
    next
      case False
      have a: "a = LockWaits" and s': "s' = set_pc t (SlowWait k c) s"
        using st False unfolding SlowTest by auto
      have "queue_inv rounds ?I ?E ?R (set_pc t (SlowWait k c) (s\<lparr>waiters := waiters s\<rparr>))"
        using p SlowTest pt by (intro queue_inv_set_pc [OF inv]) simp_all
      then show ?thesis by (simp add: snoc a s')
    qed
  next
    case CritRead
    have a: "a = CounterRead (counter s)" and s': "s' = set_pc t (CritWrite (counter s)) s"
      using st unfolding CritRead by simp_all
    have "queue_inv rounds ?I ?E ?R (set_pc t (CritWrite (counter s)) (s\<lparr>waiters := waiters s\<rparr>))"
      using p CritRead pt by (intro queue_inv_set_pc [OF inv]) simp_all
    then show ?thesis by (simp add: snoc a s')
  next
    case (CritWrite v)
    have a: "a = CounterWrite (v + 1)" and s': "s' = set_pc t UnlockInc (s\<lparr>counter := v + 1\<rparr>)"
      using st unfolding CritWrite by simp_all
    have "queue_inv rounds ?I ?E ?R s'"
      unfolding s' using inv p [unfolded CritWrite] by (rule queue_inv_write)
    then show ?thesis by (simp add: snoc a)
  next
    case UnlockInc
    have a: "a = FetchAdd NowServing memory_order_release (now_serving (lck s))"
      and s': "s' = set_pc t UnlockNotify
                 (s\<lparr>lck := (lck s)\<lparr>now_serving := now_serving (lck s) + 1\<rparr>\<rparr>)"
      using st unfolding UnlockInc by simp_all
    have "queue_inv rounds ?I ?E (?R @ [t]) s'"
      unfolding s' using inv p [unfolded UnlockInc] by (rule queue_inv_release)
    then show ?thesis by (simp add: snoc a)
  next
    case UnlockNotify
    obtain s1 where n: "atomic_notify_one w s = Some s1"
      and a: "a = AtomicNotifyOne NowServing w" and s': "s' = finish_round t s1"
      using st unfolding UnlockNotify by (auto split: option.splits)
    have s1: "s1 = s \<or> (\<exists>v. s1 = wake v s)"
      using n by (auto simp: atomic_notify_one_def split: option.splits if_splits)
    then have i1: "queue_inv rounds ?I ?E ?R s1"
      using inv by (auto intro: queue_inv_wake)
    have "pc (threads s1 t) = UnlockNotify"
      using s1 p UnlockNotify by (auto simp: wake_keeps_pc)
    with i1 have "queue_inv rounds ?I ?E ?R (finish_round t s1)"
      by (rule queue_inv_finish_round)
    then show ?thesis
      using a s' by (simp add: snoc)
  qed
qed

lemma step_preserves:
  assumes "exec_inv rounds (l, s)" and "step e s = Some (a, s')"
  shows "exec_inv rounds (l @ [(actor e, a)], s')"
proof (cases e)
  case (Step t w)
  have i: "queue_inv rounds (issued l) (entered l) (released l) s"
    using assms(1) by (simp add: exec_inv_def)
  have st: "thread_step t w (pc (threads s t)) s = Some (a, s')"
    using assms(2) Step by simp
  show ?thesis
    using thread_step_preserves [OF i refl st] Step by (simp add: exec_inv_def)
next
  case (Spurious t)
  have i: "queue_inv rounds (issued l) (entered l) (released l) s"
    using assms(1) by (simp add: exec_inv_def)
  have a: "a = SpuriousWake" and s': "s' = wake t s"
    using assms(2) Spurious by (simp_all split: if_splits)
  show ?thesis
    using queue_inv_wake [OF i, of t] Spurious
    by (simp add: exec_inv_def issued_snoc entered_snoc released_snoc a s')
qed

lemma execute_preserves:
  "exec_inv rounds c \<Longrightarrow> execute es c = Some c' \<Longrightarrow> exec_inv rounds c'"
proof (induction es arbitrary: c)
  case Nil
  then show ?case by simp
next
  case (Cons e es)
  obtain l s where c: "c = (l, s)" by (cases c)
  from Cons.prems(2) obtain a s' where st: "step e s = Some (a, s')"
    and ex: "execute es (l @ [(actor e, a)], s') = Some c'"
    unfolding c by (auto split: option.splits)
  have "exec_inv rounds (l @ [(actor e, a)], s')"
    using Cons.prems(1) st unfolding c by (rule step_preserves)
  then show ?case using ex by (rule Cons.IH)
qed

lemma exec_inv_init: "exec_inv rounds ([], init_state rounds)"
  by (simp add: exec_inv_def queue_inv_def log_inv_def counters_inv_def threads_inv_def
      rounds_inv_def counter_inv_def issued_def entered_def released_def init_state_def
      ticket_lock_init_def)

lemma reachable_inv:
  assumes "execute es ([], init_state rounds) = Some (l, s)"
  shows "queue_inv rounds (issued l) (entered l) (released l) s"
  using execute_preserves [OF exec_inv_init assms] by (simp add: exec_inv_def)

lemma critical_section_head:
  assumes "queue_inv rounds I E R s" and "in_critical_section (pc (threads s t))"
  shows "t = I ! length R"
proof -
  have "pc_inv I (length R) (length E) t (pc (threads s t))"
    using assms(1) by (simp add: queue_inv_def threads_inv_def)
  then have "holds I (length R) (length E) t"
    using assms(2) by (cases "pc (threads s t)") simp_all
  then show ?thesis by (simp add: holds_def)
qed

lemma finished_counter:
  assumes inv: "queue_inv rounds I E R s"
    and fin: "\<forall>t. remaining (threads s t) = 0"
  shows "counter s = (\<Sum>t\<in>UNIV. rounds t)"
proof -
  have 4: "rounds_inv rounds R s" and 5: "counter_inv I (length R) (length E) s"
    using inv by (simp_all add: queue_inv_def)
  have idle: "pc (threads s t) = Idle" for t
    using 4 fin by (auto simp: rounds_inv_def)
  have cnt: "count_list R t = rounds t" for t
    using 4 fin idle [of t] by (auto simp: rounds_inv_def dest!: spec [of _ t])
  have "counter s = length R" using 5 idle by (simp add: counter_inv_def)
  also have "\<dots> = (\<Sum>t\<in>UNIV. count_list R t)"
    by (rule sum_count_set [symmetric]) simp_all
  also have "\<dots> = (\<Sum>t\<in>UNIV. rounds t)" by (simp add: cnt)
  finally show ?thesis .
qed

lemma sum_rounds: "(\<Sum>t\<in>(UNIV :: u32 set). if t \<in> T then K else 0) = card T * (K :: nat)"
proof -
  have "(\<Sum>t\<in>(UNIV :: u32 set). if t \<in> T then K else 0) = (\<Sum>t\<in>T. K)"
    by (simp add: sum.If_cases)
  then show ?thesis by simp
qed


lemma log_inv_fifo_order:
  assumes "log_inv (issued l) (entered l) (released l)"
  shows "fifo_order l"
proof -
  let ?I = "issued l" and ?E = "entered l" and ?R = "released l"
  have R: "?R = take (length ?R) ?I" and E: "?E = take (length ?E) ?I"
    and le: "length ?R \<le> length ?E" "length ?E \<le> Suc (length ?R)"
    using assms by (simp_all add: log_inv_def)
  have "take (length ?R) ?E = take (length ?R) (take (length ?E) ?I)"
    using E by simp
  also have "\<dots> = take (length ?R) ?I" using le(1) by (simp add: min_def)
  finally have "?R = take (length ?R) ?E" using R by simp
  then show ?thesis using E le(2) by (simp add: fifo_order_def)
qed

lemma exec_inv_fifo_order: "exec_inv rounds (l, s) \<Longrightarrow> fifo_order l"
  by (simp add: exec_inv_def queue_inv_def log_inv_fifo_order)

lemma execute_history:
  assumes "exec_inv rounds c" and "\<forall>m\<le>length (fst c). fifo_order (take m (fst c))"
    and "execute es c = Some c'"
  shows "\<forall>m\<le>length (fst c'). fifo_order (take m (fst c'))"
  using assms
proof (induction es arbitrary: c)
  case Nil
  then show ?case by simp
next
  case (Cons e es)
  obtain l s where c: "c = (l, s)" by (cases c)
  from Cons.prems(3) obtain a s' where st: "step e s = Some (a, s')"
    and ex: "execute es (l @ [(actor e, a)], s') = Some c'"
    unfolding c by (auto split: option.splits)
  have i: "exec_inv rounds (l @ [(actor e, a)], s')"
    using Cons.prems(1) st unfolding c by (rule step_preserves)
  have "fifo_order (take m (l @ [(actor e, a)]))" if "m \<le> length (l @ [(actor e, a)])" for m
  proof (cases "m \<le> length l")
    case True
    then show ?thesis using Cons.prems(2) c by simp
  next
    case False
    then have "take m (l @ [(actor e, a)]) = l @ [(actor e, a)]" using that by simp
    then show ?thesis using exec_inv_fifo_order [OF i] by simp
  qed
  then have "\<forall>m\<le>length (fst (l @ [(actor e, a)], s')). fifo_order (take m (fst (l @ [(actor e, a)], s')))"
    by simp
  with i show ?case using ex by (rule Cons.IH)
qed

lemma fifo_order_released:
  assumes "fifo_order l" and "i < j" and "j < length (entered l)"
  shows "i < length (released l) \<and> released l ! i = issued l ! i"
proof -
  have i: "i < length (released l)" using assms by (simp add: fifo_order_def)
  have "released l ! i = take (length (released l)) (entered l) ! i"
    using assms(1) by (simp add: fifo_order_def)
  also have "\<dots> = entered l ! i" using i by simp
  also have "\<dots> = take (length (entered l)) (issued l) ! i"
    using assms(1) by (simp add: fifo_order_def)
  also have "\<dots> = issued l ! i" using assms(2,3) by simp
  finally show ?thesis using i by simp
qed

lemma ticket_position:
  assumes inv: "queue_inv rounds I E R s" and tk: "ticket_of (pc (threads s t)) = Some k"
  shows "queued I (length R) t k"
proof -
  have "pc_inv I (length R) (length E) t (pc (threads s t))"
    using inv by (simp add: queue_inv_def threads_inv_def)
  then show ?thesis using tk by (cases "pc (threads s t)") simp_all
qed

lemma granted_now_serving:
  assumes inv: "queue_inv rounds I E R s"
    and pc: "pc (threads s t) = LockTest k k \<or> pc (threads s t) = SlowTest k k"
  shows "now_serving (lck s) = k"
proof -
  let ?r = "length R"
  have 2: "counters_inv I R s" and 3: "threads_inv I ?r (length E) s"
    using inv by (simp_all add: queue_inv_def)
  have "pc_inv I ?r (length E) t (pc (threads s t))" using 3 by (simp add: threads_inv_def)
  then have q: "queued I ?r t k" and h: "I ! ?r = t" using pc by auto
  obtain n where n: "?r \<le> n" "n < length I" "I ! n = t" "k = of_nat n"
    using q by (auto simp: queued_def)
  have d: "distinct (drop ?r I)" using 3 by (simp add: threads_inv_def)
  have e: "drop ?r I ! (n - ?r) = drop ?r I ! 0" using n h by simp
  have "n - ?r < length (drop ?r I)" and "0 < length (drop ?r I)" using n by simp_all
  with d e have "n - ?r = 0" by (simp only: nth_eq_iff_index_eq)
  then have "n = ?r" using n(1) by simp
  then show ?thesis using 2 n(4) by (simp add: counters_inv_def)
qed

lemmas execute_defs = init_state_def ticket_lock_init_def set_pc_def finish_round_def
  atomic_notify_one_def atomic_wait_def wake_def


text \<open>Some execution finishes: the threads run their rounds one after another.\<close>

lemma execute_append:
  "execute (es1 @ es2) c = Option.bind (execute es1 c) (execute es2)"
proof (induction es1 arbitrary: c)
  case Nil
  then show ?case by simp
next
  case (Cons e es1)
  then show ?case by (cases "step e (snd c)") auto
qed

lemma solo_round_runs:
  assumes "quiet s" and "remaining (threads s t) = Suc n"
  shows "\<exists>l' s'. execute (solo_round t) (l, s) = Some (l', s') \<and> quiet s'
           \<and> remaining (threads s' t) = n
           \<and> (\<forall>u. u \<noteq> t \<longrightarrow> remaining (threads s' u) = remaining (threads s u))"
  using assms
  by (simp add: solo_round_def quiet_def set_pc_def finish_round_def atomic_notify_one_def)

lemma solo_rounds_run:
  assumes "quiet s" and "remaining (threads s t) = n"
  shows "\<exists>l' s'. execute (concat (replicate n (solo_round t))) (l, s) = Some (l', s') \<and> quiet s'
           \<and> remaining (threads s' t) = 0
           \<and> (\<forall>u. u \<noteq> t \<longrightarrow> remaining (threads s' u) = remaining (threads s u))"
  using assms
proof (induction n arbitrary: l s)
  case 0
  then show ?case by simp
next
  case (Suc n)
  obtain l1 s1 where 1: "execute (solo_round t) (l, s) = Some (l1, s1)" "quiet s1"
    "remaining (threads s1 t) = n"
    "\<forall>u. u \<noteq> t \<longrightarrow> remaining (threads s1 u) = remaining (threads s u)"
    using solo_round_runs [OF Suc.prems] by blast
  obtain l2 s2 where 2: "execute (concat (replicate n (solo_round t))) (l1, s1) = Some (l2, s2)"
    "quiet s2" "remaining (threads s2 t) = 0"
    "\<forall>u. u \<noteq> t \<longrightarrow> remaining (threads s2 u) = remaining (threads s1 u)"
    using Suc.IH [OF 1(2,3)] by blast
  have "execute (concat (replicate (Suc n) (solo_round t))) (l, s) = Some (l2, s2)"
    using 1(1) 2(1) by (simp add: execute_append)
  then show ?case using 1(4) 2(2,3,4) by auto
qed

lemma all_rounds_run:
  assumes "quiet s" and "distinct ts" and "\<forall>u\<in>set ts. remaining (threads s u) = rounds u"
  shows "\<exists>l' s'. execute (concat (map (\<lambda>t. concat (replicate (rounds t) (solo_round t))) ts))
             (l, s) = Some (l', s') \<and> quiet s'
           \<and> (\<forall>u. remaining (threads s' u) = (if u \<in> set ts then 0 else remaining (threads s u)))"
  using assms
proof (induction ts arbitrary: l s)
  case Nil
  then show ?case by simp
next
  case (Cons t ts)
  have rt: "remaining (threads s t) = rounds t" using Cons.prems(3) by simp
  obtain l1 s1 where 1: "execute (concat (replicate (rounds t) (solo_round t))) (l, s)
      = Some (l1, s1)" "quiet s1" "remaining (threads s1 t) = 0"
    "\<forall>u. u \<noteq> t \<longrightarrow> remaining (threads s1 u) = remaining (threads s u)"
    using solo_rounds_run [OF Cons.prems(1) rt] by blast
  have d: "distinct ts" and nt: "t \<notin> set ts" using Cons.prems(2) by simp_all
  have r1: "\<forall>u\<in>set ts. remaining (threads s1 u) = rounds u"
    using 1(4) nt Cons.prems(3) by auto
  let ?rest = "concat (map (\<lambda>t. concat (replicate (rounds t) (solo_round t))) ts)"
  obtain l2 s2 where 2: "execute ?rest (l1, s1) = Some (l2, s2)" "quiet s2"
    "\<forall>u. remaining (threads s2 u) = (if u \<in> set ts then 0 else remaining (threads s1 u))"
    using Cons.IH [OF 1(2) d r1] by blast
  have "execute (concat (map (\<lambda>t. concat (replicate (rounds t) (solo_round t))) (t # ts))) (l, s)
      = Some (l2, s2)"
    using 1(1) 2(1) by (simp add: execute_append)
  moreover have "\<forall>u. remaining (threads s2 u) =
      (if u \<in> set (t # ts) then 0 else remaining (threads s u))"
    using 1(3,4) 2(3) by auto
  ultimately show ?case using 2(2) by blast
qed

lemma some_execution_finishes:
  "\<exists>es l s. execute es ([], init_state (\<lambda>t. if t \<in> T then K else 0)) = Some (l, s)
      \<and> (\<forall>t. remaining (threads s t) = 0)"
proof -
  let ?rounds = "\<lambda>t :: u32. if t \<in> T then K else (0 :: nat)"
  obtain ts where ts: "set ts = T" "distinct ts"
    using finite_distinct_list [of T] by auto
  have q: "quiet (init_state ?rounds)"
    by (simp add: quiet_def init_state_def ticket_lock_init_def)
  have r: "\<forall>u\<in>set ts. remaining (threads (init_state ?rounds) u) = ?rounds u"
    by (simp add: init_state_def)
  obtain l s where ex: "execute (concat (map (\<lambda>t. concat (replicate (?rounds t) (solo_round t))) ts))
             ([], init_state ?rounds) = Some (l, s)"
    and rem: "\<forall>u. remaining (threads s u) =
           (if u \<in> set ts then 0 else remaining (threads (init_state ?rounds) u))"
    using all_rounds_run [OF q ts(2) r] by blast
  have "\<forall>u. remaining (threads s u) = 0"
    using rem ts(1) by (simp add: init_state_def)
  with ex show ?thesis by blast
qed

section \<open>The waiters of an execution\<close>

text \<open>
  The waiters are the threads blocked in \<^verbatim>\<open>til::atomic_wait\<close>, in every state of an
  execution.
\<close>

lemma waiters_inv_wake:
  assumes "waiters_inv s"
  shows "waiters_inv (wake v s)"
  using assms
  by (cases "pc (threads s v)")
     (auto simp: waiters_inv_def wake_def set_pc_def distinct_removeAll)

lemma waiters_inv_thread_step:
  assumes "waiters_inv s" and "thread_step t w (pc (threads s t)) s = Some (a, s')"
  shows "waiters_inv s'"
proof (cases "pc (threads s t)")
  case UnlockNotify
  then obtain s1 where n: "atomic_notify_one w s = Some s1" and s': "s' = finish_round t s1"
    using assms(2) by (auto split: option.splits)
  have "waiters_inv s1"
    using n assms(1) waiters_inv_wake [of s]
    by (auto simp: atomic_notify_one_def split: option.splits if_splits)
  moreover have "pc (threads s1 t) = UnlockNotify"
    using n UnlockNotify wake_keeps_pc [of s t]
    by (auto simp: atomic_notify_one_def split: option.splits if_splits)
  ultimately show ?thesis
    unfolding s' by (auto simp: waiters_inv_def finish_round_def)
qed (use assms in \<open>auto simp: waiters_inv_def set_pc_def atomic_wait_def split: if_splits\<close>)

lemma waiters_inv_step:
  assumes "waiters_inv s" and "step e s = Some (a, s')"
  shows "waiters_inv s'"
proof (cases e)
  case (Step t w)
  then show ?thesis using assms waiters_inv_thread_step by simp
next
  case (Spurious t)
  then show ?thesis using assms waiters_inv_wake [of s t] by (auto split: if_splits)
qed

lemma waiters_inv_execute:
  "waiters_inv (snd c) \<Longrightarrow> execute es c = Some c' \<Longrightarrow> waiters_inv (snd c')"
proof (induction es arbitrary: c)
  case Nil
  then show ?case by simp
next
  case (Cons e es)
  from Cons.prems(2) obtain a s' where st: "step e (snd c) = Some (a, s')"
    and ex: "execute es (fst c @ [(actor e, a)], s') = Some c'"
    by (auto split: option.splits)
  have "waiters_inv (snd (fst c @ [(actor e, a)], s'))"
    using waiters_inv_step [OF Cons.prems(1) st] by simp
  then show ?case using ex by (rule Cons.IH)
qed

lemma waiters_inv_init: "waiters_inv (init_state rounds)"
  by (simp add: waiters_inv_def init_state_def)

lemma reachable_waiters:
  assumes "execute es ([], init_state rounds) = Some (l, s)"
  shows "waiters_inv s"
  using waiters_inv_execute [OF _ assms] waiters_inv_init by simp


section \<open>Two threads\<close>

text \<open>
  What a step leaves as it is, and what a step of \<^verbatim>\<open>til::atomic_notify_one\<close> does.
\<close>

lemma wake_simps:
  "pc (threads (wake v s) t) =
     (if t = v then (case pc (threads s v) of Blocked k c \<Rightarrow> SlowLoad k | p \<Rightarrow> p)
      else pc (threads s t))"
  "remaining (threads (wake v s) t) = remaining (threads s t)"
  "lck (wake v s) = lck s"
  "counter (wake v s) = counter s"
  "waiters (wake v s) = removeAll v (waiters s)"
  by (cases "pc (threads s v)"; simp add: wake_def set_pc_def)+

lemma notify_step:
  assumes "pc (threads s t) = UnlockNotify" and "step (Step t w) s = Some (x, s')"
  shows "(w = None \<and> waiters s = [] \<and> s' = finish_round t s)
       \<or> (\<exists>v. w = Some v \<and> v \<in> set (waiters s) \<and> s' = finish_round t (wake v s))"
  using assms by (cases w) (auto simp: atomic_notify_one_def split: if_splits)

lemma finish_round_simps:
  "pc (threads (finish_round t s) u) = (if u = t then Idle else pc (threads s u))"
  "lck (finish_round t s) = lck s"
  "waiters (finish_round t s) = waiters s"
  by (simp_all add: finish_round_def)

lemma step_frame:
  assumes "step e s = Some (x, s')" and "u \<noteq> actor e" and "\<not> is_blocked (pc (threads s u))"
  shows "threads s' u = threads s u"
proof (cases e)
  case (Step t w)
  show ?thesis
  proof (cases "pc (threads s t)")
    case UnlockNotify
    then show ?thesis
      using assms Step
      by (cases w; cases "pc (threads s (the w))")
         (auto simp: atomic_notify_one_def wake_def set_pc_def finish_round_def
            split: if_splits)
  qed (use assms Step in \<open>auto simp: set_pc_def atomic_wait_def split: if_splits\<close>)
next
  case (Spurious t)
  then show ?thesis
    using assms by (cases "pc (threads s t)") (auto simp: wake_def set_pc_def split: if_splits)
qed

lemma idle_stays:
  assumes "step e s = Some (x, s')" and "threads s t = \<lparr>pc = Idle, remaining = 0\<rparr>"
  shows "threads s' t = \<lparr>pc = Idle, remaining = 0\<rparr>"
proof (cases "t = actor e")
  case True
  then show ?thesis
    using assms by (cases e) (auto simp: wake_def split: if_splits)
next
  case False
  then show ?thesis using step_frame [OF assms(1), of t] assms(2) by simp
qed

lemma slow_path_differs:
  assumes "step e s = Some (x, s')"
    and "\<forall>t k c. pc (threads s t) = SlowWait k c \<or> pc (threads s t) = Blocked k c \<longrightarrow> k \<noteq> c"
    and "pc (threads s' t) = SlowWait k c \<or> pc (threads s' t) = Blocked k c"
  shows "k \<noteq> c"
proof -
  have P: "pc (threads s u) = SlowWait k' k' \<Longrightarrow> False"
    and Q: "pc (threads s u) = Blocked k' k' \<Longrightarrow> False" for u k'
    using assms(2) by blast+
  show ?thesis
proof (cases "t = actor e")
  case False
  show ?thesis
  proof (cases "is_blocked (pc (threads s t))")
    case True
    then obtain k' c' where b: "pc (threads s t) = Blocked k' c'"
      by (cases "pc (threads s t)") simp_all
    have "pc (threads s' t) = Blocked k' c' \<or> pc (threads s' t) = SlowLoad k'"
    proof (cases e)
      case (Step u w)
      show ?thesis
      proof (cases "pc (threads s u)")
        case UnlockNotify
        then show ?thesis
          using notify_step [OF UnlockNotify assms(1) [unfolded Step]] b False Step
          by (auto simp: finish_round_simps wake_simps)
      qed (use assms(1) Step b False in \<open>auto simp: set_pc_def atomic_wait_def split: if_splits\<close>)
    next
      case (Spurious u)
      then show ?thesis
        using assms(1) b False
        by (auto simp: wake_simps split: if_splits)
    qed
    then show ?thesis using Q [of t k'] assms(3) b by auto
  next
    case F: False
    then have "threads s' t = threads s t" using step_frame [OF assms(1) False] by simp
    then show ?thesis using assms(3) P [of t] Q [of t] by auto
  qed
next
  case True
  show ?thesis
  proof (cases e)
    case (Step u w)
    then have u: "u = t" using True by simp
    show ?thesis
    proof (cases "pc (threads s t)")
      case UnlockNotify
      then show ?thesis
        using notify_step [OF UnlockNotify assms(1) [unfolded Step u]] assms(3)
        by (auto simp: finish_round_simps wake_simps)
    qed (use assms(1,3) Step u P [of t] Q [of t] in
        \<open>auto simp: set_pc_def atomic_wait_def split: if_splits\<close>)
  next
    case (Spurious u)
    then show ?thesis
      using assms(1,3) True P [of t] Q [of t]
      by (auto simp: wake_simps split: if_splits pc.splits)
  qed
qed
qed

lemma blocked_before:
  assumes "step e s = Some (x, s')" and "pc (threads s' t) = Blocked k c" and "t \<noteq> actor e"
  shows "pc (threads s t) = Blocked k c"
proof (cases "is_blocked (pc (threads s t))")
  case False
  then show ?thesis using step_frame [OF assms(1,3)] assms(2) by simp
next
  case True
  then obtain k' c' where b: "pc (threads s t) = Blocked k' c'"
    by (cases "pc (threads s t)") simp_all
  show ?thesis
  proof (cases e)
    case (Step u w)
    show ?thesis
    proof (cases "pc (threads s u)")
      case UnlockNotify
      then show ?thesis
        using notify_step [OF UnlockNotify assms(1) [unfolded Step]] b assms(2,3) Step
        by (auto simp: finish_round_simps wake_simps split: if_splits)
    qed (use assms Step b in \<open>auto simp: set_pc_def atomic_wait_def split: if_splits\<close>)
  next
    case (Spurious u)
    then show ?thesis
      using assms b by (auto simp: wake_simps split: if_splits)
  qed
qed

lemma blocked_actor:
  assumes "step e s = Some (x, s')" and "pc (threads s' (actor e)) = Blocked k c"
  shows "c = now_serving (lck s')"
proof (cases e)
  case (Step u w)
  show ?thesis
  proof (cases "pc (threads s u)")
    case UnlockNotify
    then show ?thesis
      using notify_step [OF UnlockNotify assms(1) [unfolded Step]] assms(2) Step
      by (auto simp: finish_round_simps)
  qed (use assms Step in \<open>auto simp: set_pc_def atomic_wait_def split: if_splits\<close>)
next
  case (Spurious u)
  then show ?thesis
    using assms by (auto simp: wake_simps split: if_splits pc.splits)
qed

lemma now_serving_changed:
  assumes "step e s = Some (x, s')" and "now_serving (lck s') \<noteq> now_serving (lck s)"
  shows "pc (threads s' (actor e)) = UnlockNotify"
proof (cases e)
  case (Step u w)
  show ?thesis
  proof (cases "pc (threads s u)")
    case UnlockNotify
    then show ?thesis
      using notify_step [OF UnlockNotify assms(1) [unfolded Step]] assms(2) Step
      by (auto simp: finish_round_simps wake_simps)
  qed (use assms Step in \<open>auto simp: set_pc_def atomic_wait_def split: if_splits\<close>)
next
  case (Spurious u)
  then show ?thesis
    using assms by (auto simp: wake_simps split: if_splits)
qed

lemma pending_notify_preserved:
  assumes inv: "two_thread_inv a b s" and wi: "waiters_inv s"
    and st: "step e s = Some (x, s')" and bl: "pc (threads s' t) = Blocked k c"
  shows "c = now_serving (lck s') \<or> (\<exists>u. pc (threads s' u) = UnlockNotify)"
proof (cases "t = actor e")
  case True
  then show ?thesis using blocked_actor [OF st] bl by simp
next
  case False
  have b: "pc (threads s t) = Blocked k c" using blocked_before [OF st bl False] .
  have i1: "v = a \<or> v = b" if "pc (threads s v) \<noteq> Idle" for v
  proof (rule ccontr)
    assume "\<not> (v = a \<or> v = b)"
    then have "threads s v = \<lparr>pc = Idle, remaining = 0\<rparr>"
      using inv unfolding two_thread_inv_def by blast
    then show False using that by simp
  qed
  have "\<forall>t k c. pc (threads s t) = Blocked k c \<longrightarrow>
            c = now_serving (lck s) \<or> (\<exists>u. pc (threads s u) = UnlockNotify)"
    using inv unfolding two_thread_inv_def by blast
  then have "c = now_serving (lck s) \<or> (\<exists>u. pc (threads s u) = UnlockNotify)"
    using b by blast
  then consider "c = now_serving (lck s)" | u where "pc (threads s u) = UnlockNotify"
    by blast
  then show ?thesis
  proof cases
    case 1
    then show ?thesis using now_serving_changed [OF st] by auto
  next
    case 2
    show ?thesis
    proof (cases "u = actor e")
      case F: False
      have "threads s' u = threads s u" using step_frame [OF st F] 2 by simp
      then have "pc (threads s' u) = UnlockNotify" using 2 by simp
      then show ?thesis by blast
    next
      case T: True
      show ?thesis
      proof (cases e)
        case (Spurious v)
        then show ?thesis using st T 2 wake_keeps_pc [OF 2] by (auto split: if_splits)
      next
        case (Step v w)
        then have v: "v = u" using T by simp
        have tw: "t \<in> set (waiters s)" using wi b by (simp add: waiters_inv_def)
        then obtain z where z: "w = Some z" "z \<in> set (waiters s)" "s' = finish_round u (wake z s)"
          using notify_step [OF 2 st [unfolded Step v]] by auto
        have zb: "is_blocked (pc (threads s z))" using wi z(2) by (simp add: waiters_inv_def)
        have "z \<noteq> t" using bl z(3) zb False T
          by (cases "pc (threads s z)") (auto simp: finish_round_simps wake_simps)
        moreover have "z \<noteq> u" using zb 2 by auto
        moreover have "t \<noteq> u" using b 2 by auto
        moreover have "t = a \<or> t = b" using i1 [of t] b by simp
        moreover have "z = a \<or> z = b" using i1 [of z] zb by (cases "pc (threads s z)") simp_all
        moreover have "u = a \<or> u = b" using i1 [of u] 2 by simp
        ultimately show ?thesis by auto
      qed
    qed
  qed
qed

lemma two_thread_inv_step:
  assumes inv: "two_thread_inv a b s" and wi: "waiters_inv s" and st: "step e s = Some (x, s')"
  shows "two_thread_inv a b s'"
proof -
  have 1: "\<forall>t. t \<noteq> a \<and> t \<noteq> b \<longrightarrow> threads s' t = \<lparr>pc = Idle, remaining = 0\<rparr>"
    using inv idle_stays [OF st] unfolding two_thread_inv_def by blast
  have 2: "\<forall>t k c. pc (threads s' t) = SlowWait k c \<or> pc (threads s' t) = Blocked k c \<longrightarrow> k \<noteq> c"
    using slow_path_differs [OF st] inv unfolding two_thread_inv_def by blast
  have 3: "\<forall>t k c. pc (threads s' t) = Blocked k c \<longrightarrow>
            c = now_serving (lck s') \<or> (\<exists>u. pc (threads s' u) = UnlockNotify)"
    using pending_notify_preserved [OF inv wi st] by blast
  show ?thesis using 1 2 3 unfolding two_thread_inv_def by blast
qed

lemma two_thread_inv_execute:
  "two_thread_inv a b (snd c) \<Longrightarrow> waiters_inv (snd c) \<Longrightarrow> execute es c = Some c'
     \<Longrightarrow> two_thread_inv a b (snd c')"
proof (induction es arbitrary: c)
  case Nil
  then show ?case by simp
next
  case (Cons e es)
  from Cons.prems(3) obtain x s' where st: "step e (snd c) = Some (x, s')"
    and ex: "execute es (fst c @ [(actor e, x)], s') = Some c'"
    by (auto split: option.splits)
  have "two_thread_inv a b (snd (fst c @ [(actor e, x)], s'))"
    using two_thread_inv_step [OF Cons.prems(1,2) st] by simp
  moreover have "waiters_inv (snd (fst c @ [(actor e, x)], s'))"
    using waiters_inv_step [OF Cons.prems(2) st] by simp
  ultimately show ?case using ex by (rule Cons.IH)
qed

lemma two_thread_inv_init:
  "two_thread_inv a b (init_state (\<lambda>t. if t \<in> {a, b} then K else 0))"
  by (simp add: two_thread_inv_def init_state_def)

text \<open>
  With at most two threads (the use the comment in the source names), an execution cannot
  get stuck: in a state in which no thread can take a step, every thread has finished its
  rounds, and the counter is \<open>N * K\<close>. At most one thread waits then, so the one
  notification of \<^verbatim>\<open>unlock\<close> reaches it.
\<close>

lemma queued_at_head:
  assumes d: "distinct (drop r I)" and q: "queued I r t k" and h: "I ! r = t"
  shows "k = of_nat r"
proof -
  obtain n where n: "r \<le> n" "n < length I" "I ! n = t" "k = of_nat n"
    using q by (auto simp: queued_def)
  have e: "drop r I ! (n - r) = drop r I ! 0" using n h by simp
  have "n - r < length (drop r I)" and "0 < length (drop r I)" using n by simp_all
  with d e have "n - r = 0" by (simp only: nth_eq_iff_index_eq)
  then show ?thesis using n by simp
qed

lemma stuck_pcs:
  assumes "\<forall>w. step (Step t w) s = None"
  shows "threads s t = \<lparr>pc = Idle, remaining = 0\<rparr> \<or> is_blocked (pc (threads s t))"
proof (cases "pc (threads s t)")
  case Idle
  then have "remaining (threads s t) = 0" using assms by (auto split: if_splits)
  then show ?thesis using Idle by (cases "threads s t") simp
next
  case UnlockNotify
  have "step (Step t (if waiters s = [] then None else Some (hd (waiters s)))) s \<noteq> None"
    using UnlockNotify by (simp add: atomic_notify_one_def)
  moreover have "step (Step t (if waiters s = [] then None else Some (hd (waiters s)))) s = None"
    using assms by (rule spec)
  ultimately show ?thesis by simp
qed (use assms in \<open>auto split: if_splits\<close>)

lemma two_threads_never_stuck:
  assumes ex: "execute es ([], init_state (\<lambda>t. if t \<in> {a, b} then K else 0)) = Some (l, s)"
    and stuck: "\<forall>t w. step (Step t w) s = None"
  shows "(\<forall>t. threads s t = \<lparr>pc = Idle, remaining = 0\<rparr>) \<and> counter s = card {a, b} * K"
proof -
  let ?rounds = "\<lambda>t. if t \<in> {a, b} then K else 0"
  let ?I = "issued l" and ?r = "length (released l)" and ?e = "length (entered l)"
  note inv = reachable_inv [OF ex]
  have wi: "waiters_inv s" using reachable_waiters [OF ex] .
  have ti: "two_thread_inv a b s"
    using two_thread_inv_execute [OF _ _ ex] two_thread_inv_init waiters_inv_init by simp
  have pcs: "threads s t = \<lparr>pc = Idle, remaining = 0\<rparr> \<or> is_blocked (pc (threads s t))" for t
    using stuck_pcs stuck by blast
  have c2: "counters_inv ?I (released l) s" and c3: "threads_inv ?I ?r ?e s"
    using inv by (simp_all add: queue_inv_def)
  have d: "distinct (drop ?r ?I)" and pi: "pc_inv ?I ?r ?e t (pc (threads s t))" for t
    using c3 by (simp_all add: threads_inv_def)
  have ns: "now_serving (lck s) = of_nat ?r" using c2 by (simp add: counters_inv_def)
  have nobody: "\<not> is_blocked (pc (threads s t))" for t
  proof
    assume "is_blocked (pc (threads s t))"
    then obtain k c where b: "pc (threads s t) = Blocked k c"
      by (cases "pc (threads s t)") simp_all
    have "queued ?I ?r t k" using pi [of t] b by simp
    then have r: "?r < length ?I" by (rule queued_less)
    let ?h = "?I ! ?r"
    have hq: "?h \<in> set (drop ?r ?I)"
      using r by (metis Cons_nth_drop_Suc list.set_intros(1))
    have "pc (threads s ?h) \<noteq> Idle" using pi [of ?h] hq by auto
    then have "is_blocked (pc (threads s ?h))" using pcs [of ?h] by auto
    then obtain k' c' where hb: "pc (threads s ?h) = Blocked k' c'"
      by (cases "pc (threads s ?h)") simp_all
    have "queued ?I ?r ?h k'" using pi [of ?h] hb by simp
    then have k': "k' = of_nat ?r" using d by (intro queued_at_head [where t = ?h]) simp_all
    have "k' \<noteq> c'" using ti hb unfolding two_thread_inv_def by blast
    moreover have "c' = now_serving (lck s) \<or> (\<exists>u. pc (threads s u) = UnlockNotify)"
      using ti hb unfolding two_thread_inv_def by blast
    moreover have "pc (threads s u) \<noteq> UnlockNotify" for u using pcs [of u] by auto
    ultimately show False using k' ns by simp
  qed
  have idle: "threads s t = \<lparr>pc = Idle, remaining = 0\<rparr>" for t
    using pcs [of t] nobody [of t] by simp
  then have fin: "\<forall>t. remaining (threads s t) = 0" by simp
  have "counter s = card {a, b} * K"
    using finished_counter [OF inv fin] by (simp only: sum_rounds)
  then show ?thesis using idle by simp
qed

section \<open>Executions end\<close>

text \<open>
  Every step of a thread makes the measure smaller: an execution in which no thread is
  woken without a notification has no more steps than the measure of its first state.
\<close>

lemma sum_point_less:
  fixes g g' :: "u32 \<Rightarrow> nat"
  assumes "\<forall>u. u \<noteq> t \<longrightarrow> g' u = g u" and "g' t < g t"
  shows "sum g' UNIV < sum g UNIV"
proof -
  have "sum g' UNIV = g' t + sum g' (UNIV - {t})" by (simp add: sum.remove)
  also have "sum g' (UNIV - {t}) = sum g (UNIV - {t})"
    using assms(1) by (intro sum.cong) auto
  also have "g' t + sum g (UNIV - {t}) < g t + sum g (UNIV - {t})" using assms(2) by simp
  also have "g t + sum g (UNIV - {t}) = sum g UNIV" by (simp add: sum.remove)
  finally show ?thesis .
qed

lemma sum_point_eq:
  fixes g g' :: "u32 \<Rightarrow> nat"
  assumes "\<forall>u. g' u = g u"
  shows "sum g' UNIV = sum g UNIV"
  using assms by simp

lemma wake_unlock_notify:
  "(pc (threads (wake v s) u) = UnlockNotify) = (pc (threads s u) = UnlockNotify)"
  by (cases "pc (threads s v)") (auto simp: wake_simps)

lemma step_measure:
  assumes st: "step (Step t w) s = Some (a, s')" and sd: "started s"
  shows "unlocks_sum s' < unlocks_sum s
       \<or> (unlocks_sum s' = unlocks_sum s \<and> steps_sum s' < steps_sum s)"
proof -
  consider "pc (threads s t) = UnlockInc" | "pc (threads s t) = UnlockNotify"
    | "pc (threads s t) \<noteq> UnlockInc" "pc (threads s t) \<noteq> UnlockNotify"
    by blast
  then show ?thesis
  proof cases
    case 1
    have r: "0 < remaining (threads s t)" using sd 1 by (simp add: started_def)
    have "unlocks_sum s' < unlocks_sum s"
      unfolding unlocks_sum_def
      using st 1 r by (intro sum_point_less [where t = t]) (auto simp: unlocks_left_def)
    then show ?thesis by simp
  next
    case 2
    have r: "0 < remaining (threads s t)" using sd 2 by (simp add: started_def)
    have "unlocks_sum s' < unlocks_sum s"
      unfolding unlocks_sum_def
      using notify_step [OF 2 st] 2 r
      by (intro sum_point_less [where t = t])
         (auto simp: unlocks_left_def wake_unlock_notify wake_simps(2) finish_round_def)
    then show ?thesis by simp
  next
    case 3
    have u: "unlocks_sum s' = unlocks_sum s"
      unfolding unlocks_sum_def
      using st 3
      by (cases "pc (threads s t)")
         (auto intro!: sum_point_eq simp: unlocks_left_def atomic_wait_def split: if_splits)
    have "steps_sum s' < steps_sum s"
      unfolding steps_sum_def
      using st 3
      by (cases "pc (threads s t)")
         (auto intro!: sum_point_less [where t = t] simp: atomic_wait_def split: if_splits)
    then show ?thesis using u by simp
  qed
qed

lemma steps_left_le: "steps_left serving r p \<le> 9"
  by (cases p) simp_all

lemma steps_sum_le: "steps_sum s \<le> 9 * card (UNIV :: u32 set)"
proof -
  have "steps_sum s \<le> (\<Sum>t\<in>(UNIV :: u32 set). 9)"
    unfolding steps_sum_def by (intro sum_mono steps_left_le)
  then show ?thesis by simp
qed

lemma run_measure_step:
  assumes "step (Step t w) s = Some (a, s')" and "started s"
  shows "run_measure s' < run_measure s"
proof -
  let ?B = "9 * card (UNIV :: u32 set)"
  from step_measure [OF assms]
  show ?thesis
  proof
    assume less: "unlocks_sum s' < unlocks_sum s"
    have "run_measure s' \<le> unlocks_sum s' * (?B + 1) + ?B"
      using steps_sum_le [of s'] by (simp add: run_measure_def)
    also have "\<dots> < Suc (unlocks_sum s') * (?B + 1)" by simp
    also have "\<dots> \<le> unlocks_sum s * (?B + 1)"
      using less by (intro mult_le_mono1) simp
    also have "\<dots> \<le> run_measure s" by (simp add: run_measure_def)
    finally show ?thesis .
  next
    assume "unlocks_sum s' = unlocks_sum s \<and> steps_sum s' < steps_sum s"
    then show ?thesis by (simp add: run_measure_def)
  qed
qed

lemma exec_inv_started: "exec_inv rounds (l, s) \<Longrightarrow> started s"
  by (simp add: exec_inv_def queue_inv_def rounds_inv_def started_def)

lemma steps_bounded:
  "exec_inv rounds c \<Longrightarrow> list_all is_step es \<Longrightarrow> execute es c = Some c'
     \<Longrightarrow> length es + run_measure (snd c') \<le> run_measure (snd c)"
proof (induction es arbitrary: c)
  case Nil
  then show ?case by simp
next
  case (Cons e es)
  obtain l s where c: "c = (l, s)" by (cases c)
  obtain t w where e: "e = Step t w" using Cons.prems(2) by (cases e) simp_all
  from Cons.prems(3) obtain a s' where st: "step e s = Some (a, s')"
    and ex: "execute es (l @ [(actor e, a)], s') = Some c'"
    unfolding c by (auto split: option.splits)
  have i: "exec_inv rounds (l @ [(actor e, a)], s')"
    using Cons.prems(1) st unfolding c by (rule step_preserves)
  have "length es + run_measure (snd c') \<le> run_measure (snd (l @ [(actor e, a)], s'))"
    using i _ ex by (rule Cons.IH) (use Cons.prems(2) in simp)
  moreover have "run_measure s' < run_measure s"
    using st exec_inv_started [OF Cons.prems(1) [unfolded c]] unfolding e
    by (rule run_measure_step)
  ultimately show ?case unfolding c by simp
qed

text \<open>
  With at most two threads every execution can be completed, to the state in which every
  thread has finished its rounds and the counter is \<open>N * K\<close>; an execution in which no
  thread is woken without a notification has a bounded number of steps, and when it cannot
  go on it is complete.
\<close>

lemma two_threads_complete:
  assumes "execute es ([], init_state (\<lambda>t. if t \<in> {a, b} then K else 0)) = Some (l, s)"
  shows "\<exists>es' l' s'. list_all is_step es' \<and> execute es' (l, s) = Some (l', s')
           \<and> (\<forall>t. threads s' t = \<lparr>pc = Idle, remaining = 0\<rparr>)
           \<and> counter s' = card {a, b} * K"
  using assms
proof (induction "run_measure s" arbitrary: es l s rule: less_induct)
  case less
  let ?rounds = "\<lambda>t. if t \<in> {a, b} then K else 0"
  show ?case
  proof (cases "\<forall>t w. step (Step t w) s = None")
    case True
    have "list_all is_step [] \<and> execute [] (l, s) = Some (l, s)" by simp
    then show ?thesis using two_threads_never_stuck [OF less.prems True] by blast
  next
    case False
    then obtain t w x s1 where st: "step (Step t w) s = Some (x, s1)" by auto
    have i: "exec_inv ?rounds (l, s)"
      using execute_preserves [OF exec_inv_init less.prems] .
    have m: "run_measure s1 < run_measure s"
      using st exec_inv_started [OF i] by (rule run_measure_step)
    have ex1: "execute (es @ [Step t w]) ([], init_state ?rounds) = Some (l @ [(t, x)], s1)"
      using less.prems st by (simp add: execute_append)
    obtain es' l' s' where c: "list_all is_step es'"
      "execute es' (l @ [(t, x)], s1) = Some (l', s')"
      "\<forall>t. threads s' t = \<lparr>pc = Idle, remaining = 0\<rparr>" "counter s' = card {a, b} * K"
      using less.hyps [OF m ex1] by blast
    have "execute (Step t w # es') (l, s) = Some (l', s')" using st c(2) by simp
    moreover have "list_all is_step (Step t w # es')" using c(1) by simp
    ultimately show ?thesis using c(3,4) by blast
  qed
qed

lemma two_threads_finish:
  assumes ex: "execute es ([], init_state (\<lambda>t. if t \<in> {a, b} then K else 0)) = Some (l, s)"
    and steps: "list_all is_step es"
  shows "length es \<le> run_measure (init_state (\<lambda>t. if t \<in> {a, b} then K else 0))"
    and "(\<forall>t w. step (Step t w) s = None) \<longrightarrow>
           (\<forall>t. threads s t = \<lparr>pc = Idle, remaining = 0\<rparr>) \<and> counter s = card {a, b} * K"
proof -
  show "length es \<le> run_measure (init_state (\<lambda>t. if t \<in> {a, b} then K else 0))"
    using steps_bounded [OF exec_inv_init steps ex] by simp
  show "(\<forall>t w. step (Step t w) s = None) \<longrightarrow>
           (\<forall>t. threads s t = \<lparr>pc = Idle, remaining = 0\<rparr>) \<and> counter s = card {a, b} * K"
    using two_threads_never_stuck [OF ex] by blast
qed

section \<open>Mutual exclusion\<close>

text \<open>
  Any set \<open>T\<close> of threads (there are \<open>N = card T\<close> of them), each running the
  loop \<^verbatim>\<open>lock(); counter += 1; unlock();\<close> \<open>K\<close> times on one ticket lock, under any
  interleaving of their steps, with any choice of the waiter that a notification wakes and
  with wake-ups without notification: in every state of the execution at most one thread is
  in its critical section, and when every thread has finished its rounds the shared counter
  is exactly \<open>N * K\<close>. For every \<open>T\<close> and \<open>K\<close> there is an execution in which every
  thread finishes its rounds.
\<close>

lemma critical_sections_never_overlap:
  assumes "execute es ([], init_state (\<lambda>t. if t \<in> T then K else 0)) = Some (l, s)"
  shows "(\<forall>t u. in_critical_section (pc (threads s t)) \<and> in_critical_section (pc (threads s u))
            \<longrightarrow> t = u)
       \<and> ((\<forall>t. remaining (threads s t) = 0) \<longrightarrow> counter s = card T * K)
       \<and> (\<exists>es' l' s'. execute es' ([], init_state (\<lambda>t. if t \<in> T then K else 0)) = Some (l', s')
             \<and> (\<forall>t. remaining (threads s' t) = 0))"
proof -
  note inv = reachable_inv [OF assms]
  have "t = u" if "in_critical_section (pc (threads s t))"
    and "in_critical_section (pc (threads s u))" for t u
    using critical_section_head [OF inv that(1)] critical_section_head [OF inv that(2)] by simp
  moreover have "counter s = card T * K" if "\<forall>t. remaining (threads s t) = 0"
    using finished_counter [OF inv that] by (simp only: sum_rounds)
  ultimately show ?thesis using some_execution_finishes [of T K] by blast
qed

text \<open>Two threads that contend: the second waits, is woken by the first, and both finish.\<close>

lemma two_threads_contended_run:
  "\<exists>l s. execute [Step 1 None, Step 2 None, Step 1 None, Step 2 None, Step 1 None, Step 2 None,
      Step 2 None, Step 1 None, Step 1 None, Step 1 None, Step 1 (Some 2), Step 2 None,
      Step 2 None, Step 2 None, Step 2 None, Step 2 None, Step 2 None]
      ([], init_state (\<lambda>t. if t \<in> {1, 2} then 1 else 0)) = Some (l, s)
    \<and> (\<forall>t. remaining (threads s t) = 0)
    \<and> counter s = 2"
proof -
  let ?es = "[Step 1 None, Step 2 None, Step 1 None, Step 2 None, Step 1 None, Step 2 None,
      Step 2 None, Step 1 None, Step 1 None, Step 1 None, Step 1 (Some 2), Step 2 None,
      Step 2 None, Step 2 None, Step 2 None, Step 2 None, Step 2 None]"
  have "\<exists>l s. execute ?es ([], init_state (\<lambda>t. if t \<in> {1, 2} then 1 else 0)) = Some (l, s)
      \<and> (\<forall>t. remaining (threads s t) = 0)"
    by (simp add: execute_defs)
  then obtain l s where ex: "execute ?es ([], init_state (\<lambda>t. if t \<in> {1, 2} then 1 else 0)) = Some (l, s)"
    and fin: "\<forall>t. remaining (threads s t) = 0" by blast
  have "counter s = card {1 :: u32, 2} * 1"
    using critical_sections_never_overlap [OF ex] fin by blast
  then have "counter s = 2" by simp
  then show ?thesis using ex fin by blast
qed

text \<open>
  Claim C1. For any number \<open>N\<close> of threads that each run
  \<^verbatim>\<open>lock(); counter += 1; unlock();\<close> \<open>K\<close> times on one ticket lock, the final value of
  the counter is \<open>N * K\<close>.

  The critical sections never overlap and no increment is lost
  (\<open>critical_sections_never_overlap\<close>), and with at most two threads every execution
  ends with the final value (\<open>two_threads_finish\<close>, \<open>two_threads_complete\<close>). Three
  threads do not always reach it. In the execution
  below (\<open>N = 3\<close>, \<open>K = 1\<close>) thread 1 enters with ticket 0; thread 2 takes ticket 1 and
  thread 3 ticket 2, both load \<^verbatim>\<open>_now_serving\<close> = 0, and thread 3 and then thread 2
  block in \<^verbatim>\<open>til::atomic_wait\<close> on the value 0. Thread 1 increments the counter; its
  \<^verbatim>\<open>unlock\<close> sets \<^verbatim>\<open>_now_serving\<close> to 1, and \<^verbatim>\<open>til::atomic_notify_one\<close> wakes
  thread 3, the waiter that has waited longest. Thread 3 loads 1, which is not its ticket,
  and calls \<^verbatim>\<open>til::atomic_wait\<close> on the value 1, which blocks it again. Thread 2, whose
  ticket 1 is now served, is still blocked on the value 0, and the one notification of
  \<^verbatim>\<open>unlock\<close> is spent. In the state reached no thread can take a step, the counter is 1
  and not 3, and threads 2 and 3 have their round left.
\<close>

theorem mutual_exclusion_lost_wakeup:
  "\<exists>l1 s1 l s. execute
      [Step 1 None, Step 1 None, Step 1 None,
       Step 2 None, Step 2 None, Step 2 None,
       Step 3 None, Step 3 None, Step 3 None, Step 3 None,
       Step 2 None,
       Step 1 None, Step 1 None, Step 1 None]
      ([], init_state (\<lambda>t. if t \<in> {1, 2, 3} then 1 else 0)) = Some (l1, s1)
    \<and> waiters s1 = [3, 2]
    \<and> execute [Step 1 (Some 3), Step 3 None, Step 3 None, Step 3 None] (l1, s1) = Some (l, s)
    \<and> lck s = \<lparr>next_ticket = 3, now_serving = 1\<rparr>
    \<and> waiters s = [2, 3]
    \<and> counter s = 1
    \<and> threads s 1 = \<lparr>pc = Idle, remaining = 0\<rparr>
    \<and> threads s 2 = \<lparr>pc = Blocked 1 0, remaining = 1\<rparr>
    \<and> threads s 3 = \<lparr>pc = Blocked 2 1, remaining = 1\<rparr>
    \<and> (\<forall>t w. step (Step t w) s = None)"
  by (simp add: execute_defs)

text \<open>
  When the notification of thread 1 wakes thread 2 instead, the same three threads finish,
  and the counter is 3.
\<close>

lemma three_threads_finish:
  "\<exists>l s. execute
      [Step 1 None, Step 1 None, Step 1 None,
       Step 2 None, Step 2 None, Step 2 None,
       Step 3 None, Step 3 None, Step 3 None, Step 3 None,
       Step 2 None,
       Step 1 None, Step 1 None, Step 1 None,
       Step 1 (Some 2), Step 2 None, Step 2 None,
       Step 2 None, Step 2 None, Step 2 None, Step 2 (Some 3),
       Step 3 None, Step 3 None, Step 3 None, Step 3 None, Step 3 None, Step 3 None]
      ([], init_state (\<lambda>t. if t \<in> {1, 2, 3} then 1 else 0)) = Some (l, s)
    \<and> counter s = 3
    \<and> (\<forall>t. threads s t = \<lparr>pc = Idle, remaining = 0\<rparr>)"
  by (simp add: execute_defs)

section \<open>First-in first-out order\<close>

text \<open>
  In every execution, at every moment of it (every prefix \<open>take m l\<close> of its
  log): the threads acquire the lock in the order in which they took their tickets, they
  release it in that order, and at most one has acquired and not released; so when the
  \<^verbatim>\<open>lock\<close> of the thread with the ticket number \<open>j\<close> has returned, every thread with a
  ticket number \<open>i < j\<close> has already incremented \<^verbatim>\<open>_now_serving\<close> in its \<^verbatim>\<open>unlock\<close>.
  The counters count the tickets and the releases; a thread inside \<^verbatim>\<open>lock\<close> holds the
  ticket of its place in the order; the thread in the critical section is the first that has
  not released. When the test of a caller is about to let it in (the value it loaded is its
  ticket), \<^verbatim>\<open>_now_serving\<close> is its ticket.
\<close>

lemma fifo_order_of_executions:
  assumes "execute es ([], init_state rounds) = Some (l, s)"
  shows "(\<forall>m\<le>length l. fifo_order (take m l)
            \<and> (\<forall>i j. i < j \<and> j < length (entered (take m l)) \<longrightarrow>
                  i < length (released (take m l))
                  \<and> released (take m l) ! i = issued (take m l) ! i))
       \<and> next_ticket (lck s) = of_nat (length (issued l))
       \<and> now_serving (lck s) = of_nat (length (released l))
       \<and> (\<forall>t k. ticket_of (pc (threads s t)) = Some k \<longrightarrow>
             (\<exists>n. length (released l) \<le> n \<and> n < length (issued l)
                  \<and> issued l ! n = t \<and> k = of_nat n))
       \<and> (\<forall>t. in_critical_section (pc (threads s t)) \<longrightarrow>
             length (released l) < length (issued l) \<and> t = issued l ! length (released l))
       \<and> (\<forall>t k. pc (threads s t) = LockTest k k \<or> pc (threads s t) = SlowTest k k \<longrightarrow>
             now_serving (lck s) = k)"
proof -
  note inv = reachable_inv [OF assms]
  have h0: "\<forall>m\<le>length (fst ([] :: log, init_state rounds)).
              fifo_order (take m (fst ([] :: log, init_state rounds)))"
    by (simp add: fifo_order_def issued_def entered_def released_def)
  have hist: "fifo_order (take m l)" if "m \<le> length l" for m
    using execute_history [OF exec_inv_init h0 assms] that by simp
  have 1: "\<forall>m\<le>length l. fifo_order (take m l)
            \<and> (\<forall>i j. i < j \<and> j < length (entered (take m l)) \<longrightarrow>
                  i < length (released (take m l))
                  \<and> released (take m l) ! i = issued (take m l) ! i)"
    using hist fifo_order_released by blast
  have 2: "next_ticket (lck s) = of_nat (length (issued l))"
    and 3: "now_serving (lck s) = of_nat (length (released l))"
    using inv by (simp_all add: queue_inv_def counters_inv_def)
  have 4: "\<forall>t k. ticket_of (pc (threads s t)) = Some k \<longrightarrow>
             (\<exists>n. length (released l) \<le> n \<and> n < length (issued l)
                  \<and> issued l ! n = t \<and> k = of_nat n)"
    using ticket_position [OF inv] by (simp add: queued_def)
  have 5: "\<forall>t. in_critical_section (pc (threads s t)) \<longrightarrow>
             length (released l) < length (issued l) \<and> t = issued l ! length (released l)"
  proof (intro allI impI)
    fix t assume cs: "in_critical_section (pc (threads s t))"
    have "pc_inv (issued l) (length (released l)) (length (entered l)) t (pc (threads s t))"
      using inv by (simp add: queue_inv_def threads_inv_def)
    then have "holds (issued l) (length (released l)) (length (entered l)) t"
      using cs by (cases "pc (threads s t)") simp_all
    then show "length (released l) < length (issued l) \<and> t = issued l ! length (released l)"
      by (auto simp: holds_def)
  qed
  have 6: "\<forall>t k. pc (threads s t) = LockTest k k \<or> pc (threads s t) = SlowTest k k \<longrightarrow>
             now_serving (lck s) = k"
    using granted_now_serving [OF inv] by blast
  show ?thesis using 1 2 3 4 5 6 by blast
qed

text \<open>Two threads that contend: the order of the tickets is the order of entry.\<close>

lemma two_threads_fifo_run:
  "\<exists>l s. execute [Step 2 None, Step 1 None, Step 1 None, Step 1 None, Step 1 None, Step 2 None,
      Step 2 None, Step 2 None, Step 2 None, Step 2 None, Step 2 (Some 1), Step 1 None, Step 1 None,
      Step 1 None, Step 1 None, Step 1 None, Step 1 None]
      ([], init_state (\<lambda>t. if t \<in> {1, 2} then 1 else 0)) = Some (l, s)
    \<and> issued l = [2, 1] \<and> entered l = [2, 1] \<and> released l = [2, 1]
    \<and> fifo_order l \<and> now_serving (lck s) = 2"
proof -
  let ?es = "[Step 2 None, Step 1 None, Step 1 None, Step 1 None, Step 1 None, Step 2 None,
      Step 2 None, Step 2 None, Step 2 None, Step 2 None, Step 2 (Some 1), Step 1 None, Step 1 None,
      Step 1 None, Step 1 None, Step 1 None, Step 1 None]"
  have "\<exists>l s. execute ?es ([], init_state (\<lambda>t. if t \<in> {1, 2} then 1 else 0)) = Some (l, s)
      \<and> issued l = [2, 1] \<and> entered l = [2, 1] \<and> released l = [2, 1]"
    by (simp add: execute_defs issued_def entered_def released_def)
  then obtain l s where ex: "execute ?es ([], init_state (\<lambda>t. if t \<in> {1, 2} then 1 else 0)) = Some (l, s)"
    and log: "issued l = [2, 1]" "entered l = [2, 1]" "released l = [2, 1]" by blast
  note t = fifo_order_of_executions [OF ex]
  have "fifo_order (take (length l) l)" using t by blast
  moreover have "now_serving (lck s) = of_nat (length (released l))" using t by blast
  ultimately have "fifo_order l \<and> now_serving (lck s) = 2" using log by simp
  then show ?thesis using ex log by blast
qed

text \<open>
  Claim C2. In every execution of the ticket lock a caller that holds the ticket \<open>t\<close> is
  granted entry exactly when \<^verbatim>\<open>_now_serving\<close> is \<open>t\<close>, and the callers acquire the lock
  in the order in which they took their tickets.

  The order holds, and a caller is granted entry only when \<^verbatim>\<open>_now_serving\<close> is its
  ticket (\<open>fifo_order_of_executions\<close>). That a caller is granted entry when
  \<^verbatim>\<open>_now_serving\<close> is its ticket does not hold with three threads. In the execution
  below thread 1 enters with ticket 0, thread 2 takes ticket 1 and thread 3 ticket 2,
  thread 3 and then thread 2 block in \<^verbatim>\<open>til::atomic_wait\<close> on the value 0, and the
  \<^verbatim>\<open>til::atomic_notify_one\<close> of the \<^verbatim>\<open>unlock\<close> of thread 1 wakes thread 3, the
  waiter that has waited longest. Thread 3 finds that \<^verbatim>\<open>_now_serving\<close> = 1
  is not its ticket and blocks again. In the state reached thread 2 holds the ticket 1,
  \<^verbatim>\<open>_now_serving\<close> is 1, thread 2 is blocked inside \<^verbatim>\<open>lock\<close>, and no thread can take
  a step: the caller whose ticket is served is not granted entry. Only thread 1 has entered.
\<close>

theorem fifo_grant_lost_wakeup:
  "\<exists>l s. execute
      [Step 1 None, Step 1 None, Step 1 None,
       Step 2 None, Step 2 None, Step 2 None,
       Step 3 None, Step 3 None, Step 3 None, Step 3 None,
       Step 2 None,
       Step 1 None, Step 1 None, Step 1 None, Step 1 (Some 3),
       Step 3 None, Step 3 None, Step 3 None]
      ([], init_state (\<lambda>t. if t \<in> {1, 2, 3} then 1 else 0)) = Some (l, s)
    \<and> issued l = [1, 2, 3] \<and> entered l = [1] \<and> released l = [1]
    \<and> now_serving (lck s) = 1
    \<and> pc (threads s 2) = Blocked 1 0
    \<and> ticket_of (pc (threads s 2)) = Some 1
    \<and> pc (threads s 3) = Blocked 2 1
    \<and> (\<forall>t w. step (Step t w) s = None)"
  by (simp add: execute_defs issued_def entered_def released_def)

section \<open>The algorithm of the ticket lock\<close>

lemma lock_fast_path:
  assumes "pc (threads s t) = Idle" and "remaining (threads s t) \<noteq> 0"
    and "now_serving (lck s) = next_ticket (lck s)"
  shows "execute [Step t w, Step t w, Step t w] (l, s) =
     Some (l @ [(t, FetchAdd NextTicket memory_order_relaxed (next_ticket (lck s))),
                (t, Load NowServing memory_order_acquire (now_serving (lck s))),
                (t, LockReturns)],
           set_pc t CritRead (s\<lparr>lck := (lck s)\<lparr>next_ticket := next_ticket (lck s) + 1\<rparr>\<rparr>))"
  using assms by (simp add: set_pc_def)

lemma lock_slow_path:
  assumes "pc (threads s t) = Idle" and "remaining (threads s t) \<noteq> 0"
    and "now_serving (lck s) \<noteq> next_ticket (lck s)"
  shows "execute [Step t w, Step t w, Step t w] (l, s) =
     Some (l @ [(t, FetchAdd NextTicket memory_order_relaxed (next_ticket (lck s))),
                (t, Load NowServing memory_order_acquire (now_serving (lck s))),
                (t, LockWaits)],
           set_pc t (SlowWait (next_ticket (lck s)) (now_serving (lck s)))
             (s\<lparr>lck := (lck s)\<lparr>next_ticket := next_ticket (lck s) + 1\<rparr>\<rparr>))"
  using assms by (auto simp add: set_pc_def)

lemma slow_wait_step:
  assumes "pc (threads s t) = SlowWait k c"
  shows "step (Step t w) s =
     Some (AtomicWait NowServing c,
           if now_serving (lck s) \<noteq> c then set_pc t (SlowLoad k) s
           else set_pc t (Blocked k c) (s\<lparr>waiters := waiters s @ [t]\<rparr>))"
  using assms by (simp add: atomic_wait_def)

lemma slow_reload:
  assumes "pc (threads s t) = SlowLoad k"
  shows "execute [Step t w, Step t w] (l, s) =
     Some (l @ [(t, Load NowServing memory_order_acquire (now_serving (lck s))),
                (t, if now_serving (lck s) = k then LockReturns else LockWaits)],
           set_pc t (if now_serving (lck s) = k then CritRead
                     else SlowWait k (now_serving (lck s))) s)"
  using assms by (simp add: set_pc_def)

lemma unlock_wakes:
  assumes "pc (threads s t) = UnlockInc" and "v \<in> set (waiters s)"
  shows "\<exists>s'. execute [Step t w, Step t (Some v)] (l, s) =
            Some (l @ [(t, FetchAdd NowServing memory_order_release (now_serving (lck s))),
                       (t, AtomicNotifyOne NowServing (Some v))], s')
          \<and> lck s' = (lck s)\<lparr>now_serving := now_serving (lck s) + 1\<rparr>
          \<and> waiters s' = removeAll v (waiters s)
          \<and> (\<forall>u. u \<noteq> t \<and> u \<noteq> v \<longrightarrow> threads s' u = threads s u)
          \<and> (\<forall>k c. pc (threads s v) = Blocked k c \<longrightarrow> pc (threads s' v) = SlowLoad k)"
  using assms
  by (auto simp: set_pc_def atomic_notify_one_def wake_def finish_round_def Let_def
      split: pc.splits)

lemma unlock_nobody:
  assumes "pc (threads s t) = UnlockInc" and "waiters s = []"
  shows "\<exists>s'. execute [Step t w, Step t None] (l, s) =
            Some (l @ [(t, FetchAdd NowServing memory_order_release (now_serving (lck s))),
                       (t, AtomicNotifyOne NowServing None)], s')
          \<and> lck s' = (lck s)\<lparr>now_serving := now_serving (lck s) + 1\<rparr>
          \<and> waiters s' = []
          \<and> (\<forall>u. u \<noteq> t \<longrightarrow> threads s' u = threads s u)"
  using assms
  by (auto simp: set_pc_def atomic_notify_one_def finish_round_def)

lemma unlock_inc_step:
  assumes "pc (threads s t) = UnlockInc"
  shows "step (Step t w) s =
     Some (FetchAdd NowServing memory_order_release (now_serving (lck s)),
           set_pc t UnlockNotify (s\<lparr>lck := ticket_lock_unlock (lck s)\<rparr>))"
  using assms by (simp add: ticket_lock_unlock_def)

lemma notify_not_skipped:
  assumes "pc (threads s t) = UnlockNotify" and "waiters s \<noteq> []"
  shows "step (Step t None) s = None"
  using assms by (simp add: atomic_notify_one_def)

lemma notify_only_waiter:
  assumes "pc (threads s t) = UnlockNotify" and "v \<notin> set (waiters s)"
  shows "step (Step t (Some v)) s = None"
  using assms by (simp add: atomic_notify_one_def)

lemma notify_effect:
  assumes "pc (threads s t) = UnlockNotify" and "step (Step t w) s = Some (a, s')"
  shows "a = AtomicNotifyOne NowServing w \<and> lck s' = lck s \<and> counter s' = counter s
       \<and> threads s' t = \<lparr>pc = Idle, remaining = remaining (threads s t) - 1\<rparr>
       \<and> (case w of
             None \<Rightarrow> waiters s = [] \<and> waiters s' = []
                     \<and> (\<forall>u. u \<noteq> t \<longrightarrow> threads s' u = threads s u)
           | Some v \<Rightarrow> v \<in> set (waiters s) \<and> waiters s' = removeAll v (waiters s)
                     \<and> set (waiters s') = set (waiters s) - {v}
                     \<and> (\<forall>u. u \<noteq> t \<and> u \<noteq> v \<longrightarrow> threads s' u = threads s u)
                     \<and> (\<forall>k c. pc (threads s v) = Blocked k c \<longrightarrow>
                           threads s' v = \<lparr>pc = SlowLoad k, remaining = remaining (threads s v)\<rparr>))"
  using assms
  by (cases w; cases "pc (threads s (the w))")
     (auto simp: atomic_notify_one_def wake_def set_pc_def finish_round_def
        split: if_splits)

lemma notify_wakes_exactly_one:
  assumes ex: "execute es ([], init_state rounds) = Some (l0, s)"
    and pc: "pc (threads s t) = UnlockNotify"
    and st: "step (Step t w) s = Some (a, s')"
  shows "(\<forall>u. is_blocked (pc (threads s' u)) = (is_blocked (pc (threads s u)) \<and> Some u \<noteq> w))
       \<and> ((\<exists>u. is_blocked (pc (threads s u))) = (\<exists>v. w = Some v \<and> is_blocked (pc (threads s v))))"
proof -
  note wi = reachable_waiters [OF ex]
  have wi': "waiters_inv s'"
    using waiters_inv_step [OF wi st] .
  note e = notify_effect [OF pc st]
  show ?thesis
  proof (cases w)
    case None
    then have "waiters s = []" "waiters s' = []" using e by simp_all
    then show ?thesis using wi wi' None by (simp add: waiters_inv_def)
  next
    case (Some v)
    then have v: "v \<in> set (waiters s)" and s': "set (waiters s') = set (waiters s) - {v}"
      using e by simp_all
    show ?thesis using wi wi' Some v s' by (auto simp: waiters_inv_def)
  qed
qed

text \<open>
  Claim C3. A call of \<^verbatim>\<open>lock\<close> first does \<^verbatim>\<open>fetch_add(1, relaxed)\<close> on
  \<^verbatim>\<open>_next_ticket\<close>, which gives its ticket, then loads \<^verbatim>\<open>_now_serving\<close> with acquire
  ordering, then tests the value loaded against the ticket (the first four parts of the
  theorem, one step each, whatever the other threads do in between). When the value loaded
  is the ticket, it returns with its third step, without a
  call of \<^verbatim>\<open>til::atomic_wait\<close> (run alone, \<open>ticket_lock_lock\<close> returns). Otherwise it
  goes on in \<^verbatim>\<open>_lockSlow\<close>: it calls \<^verbatim>\<open>til::atomic_wait\<close> on \<^verbatim>\<open>_now_serving\<close> and the
  value it loaded, which blocks it while the counter has that value (a blocked thread takes
  no step); after the wait it loads \<^verbatim>\<open>_now_serving\<close> with acquire ordering again, and
  returns when that value is its ticket, and waits again when it is not.

  A call of \<^verbatim>\<open>unlock\<close> does \<^verbatim>\<open>fetch_add(1, release)\<close> on \<^verbatim>\<open>_now_serving\<close> and then
  calls \<^verbatim>\<open>til::atomic_notify_one\<close>. The notification wakes exactly one blocked waiter:
  while a thread waits it cannot pass without waking one, and it cannot wake a thread that
  does not wait; the thread \<open>v\<close> it wakes leaves the waiters and goes on to its load, and
  every other thread stays as it is; when nobody waits, nothing else changes. In every
  state of an execution the waiters are the threads blocked in \<^verbatim>\<open>til::atomic_wait\<close>,
  each once; so after the notification exactly the threads that were blocked, but for the
  one woken, are blocked, and one is woken whenever one is blocked.
\<close>

theorem ticket_lock_algorithm:
  "(pc (threads s t) = Idle \<and> remaining (threads s t) \<noteq> 0 \<longrightarrow>
      step (Step t w) s =
        Some (FetchAdd NextTicket memory_order_relaxed (next_ticket (lck s)),
              set_pc t (LockLoad (next_ticket (lck s)))
                (s\<lparr>lck := (lck s)\<lparr>next_ticket := next_ticket (lck s) + 1\<rparr>\<rparr>)))
   \<and> (pc (threads s t) = LockLoad k \<longrightarrow>
      step (Step t w) s =
        Some (Load NowServing memory_order_acquire (now_serving (lck s)),
              set_pc t (LockTest k (now_serving (lck s))) s))
   \<and> (pc (threads s t) = LockTest k c \<or> pc (threads s t) = SlowTest k c \<longrightarrow>
      step (Step t w) s =
        Some (if c = k then (LockReturns, set_pc t CritRead s)
              else (LockWaits, set_pc t (SlowWait k c) s)))
   \<and> (pc (threads s t) = SlowLoad k \<longrightarrow>
      step (Step t w) s =
        Some (Load NowServing memory_order_acquire (now_serving (lck s)),
              set_pc t (SlowTest k (now_serving (lck s))) s))
   \<and> (pc (threads s t) = Idle \<and> remaining (threads s t) \<noteq> 0
      \<and> now_serving (lck s) = next_ticket (lck s) \<longrightarrow>
      execute [Step t w, Step t w, Step t w] (l, s) =
        Some (l @ [(t, FetchAdd NextTicket memory_order_relaxed (next_ticket (lck s))),
                   (t, Load NowServing memory_order_acquire (now_serving (lck s))),
                   (t, LockReturns)],
              set_pc t CritRead (s\<lparr>lck := (lck s)\<lparr>next_ticket := next_ticket (lck s) + 1\<rparr>\<rparr>))
      \<and> ticket_lock_lock (lck s) = Some ((lck s)\<lparr>next_ticket := next_ticket (lck s) + 1\<rparr>))
   \<and> (pc (threads s t) = Idle \<and> remaining (threads s t) \<noteq> 0
      \<and> now_serving (lck s) \<noteq> next_ticket (lck s) \<longrightarrow>
      execute [Step t w, Step t w, Step t w] (l, s) =
        Some (l @ [(t, FetchAdd NextTicket memory_order_relaxed (next_ticket (lck s))),
                   (t, Load NowServing memory_order_acquire (now_serving (lck s))),
                   (t, LockWaits)],
              set_pc t (SlowWait (next_ticket (lck s)) (now_serving (lck s)))
                (s\<lparr>lck := (lck s)\<lparr>next_ticket := next_ticket (lck s) + 1\<rparr>\<rparr>))
      \<and> ticket_lock_lock (lck s) = None)
   \<and> (pc (threads s t) = SlowWait k c \<longrightarrow>
      step (Step t w) s =
        Some (AtomicWait NowServing c,
              if now_serving (lck s) \<noteq> c then set_pc t (SlowLoad k) s
              else set_pc t (Blocked k c) (s\<lparr>waiters := waiters s @ [t]\<rparr>)))
   \<and> (pc (threads s t) = Blocked k c \<longrightarrow> step (Step t w) s = None)
   \<and> (pc (threads s t) = SlowLoad k \<longrightarrow>
      execute [Step t w, Step t w] (l, s) =
        Some (l @ [(t, Load NowServing memory_order_acquire (now_serving (lck s))),
                   (t, if now_serving (lck s) = k then LockReturns else LockWaits)],
              set_pc t (if now_serving (lck s) = k then CritRead
                        else SlowWait k (now_serving (lck s))) s))
   \<and> (pc (threads s t) = UnlockInc \<and> v \<in> set (waiters s) \<longrightarrow>
      (\<exists>s'. execute [Step t w, Step t (Some v)] (l, s) =
            Some (l @ [(t, FetchAdd NowServing memory_order_release (now_serving (lck s))),
                       (t, AtomicNotifyOne NowServing (Some v))], s')
          \<and> lck s' = ticket_lock_unlock (lck s)
          \<and> waiters s' = removeAll v (waiters s)
          \<and> (\<forall>u. u \<noteq> t \<and> u \<noteq> v \<longrightarrow> threads s' u = threads s u)
          \<and> (\<forall>k c. pc (threads s v) = Blocked k c \<longrightarrow> pc (threads s' v) = SlowLoad k)))
   \<and> (pc (threads s t) = UnlockInc \<and> waiters s = [] \<longrightarrow>
      (\<exists>s'. execute [Step t w, Step t None] (l, s) =
            Some (l @ [(t, FetchAdd NowServing memory_order_release (now_serving (lck s))),
                       (t, AtomicNotifyOne NowServing None)], s')
          \<and> lck s' = ticket_lock_unlock (lck s)
          \<and> waiters s' = []
          \<and> (\<forall>u. u \<noteq> t \<longrightarrow> threads s' u = threads s u)))
   \<and> (pc (threads s t) = UnlockInc \<longrightarrow>
      step (Step t w) s =
        Some (FetchAdd NowServing memory_order_release (now_serving (lck s)),
              set_pc t UnlockNotify (s\<lparr>lck := ticket_lock_unlock (lck s)\<rparr>)))
   \<and> (pc (threads s t) = UnlockNotify \<and> waiters s \<noteq> [] \<longrightarrow> step (Step t None) s = None)
   \<and> (pc (threads s t) = UnlockNotify \<and> v \<notin> set (waiters s) \<longrightarrow>
      step (Step t (Some v)) s = None)
   \<and> (pc (threads s t) = UnlockNotify \<and> step (Step t w) s = Some (a, s1) \<longrightarrow>
      a = AtomicNotifyOne NowServing w \<and> lck s1 = lck s \<and> counter s1 = counter s
      \<and> threads s1 t = \<lparr>pc = Idle, remaining = remaining (threads s t) - 1\<rparr>
      \<and> (case w of
            None \<Rightarrow> waiters s = [] \<and> waiters s1 = []
                    \<and> (\<forall>u. u \<noteq> t \<longrightarrow> threads s1 u = threads s u)
          | Some v \<Rightarrow> v \<in> set (waiters s) \<and> waiters s1 = removeAll v (waiters s)
                    \<and> set (waiters s1) = set (waiters s) - {v}
                    \<and> (\<forall>u. u \<noteq> t \<and> u \<noteq> v \<longrightarrow> threads s1 u = threads s u)
                    \<and> (\<forall>k c. pc (threads s v) = Blocked k c \<longrightarrow>
                          threads s1 v = \<lparr>pc = SlowLoad k, remaining = remaining (threads s v)\<rparr>)))
   \<and> (execute es ([], init_state rounds) = Some (l0, s) \<longrightarrow>
      distinct (waiters s) \<and> (\<forall>u. (u \<in> set (waiters s)) = is_blocked (pc (threads s u))))
   \<and> (execute es ([], init_state rounds) = Some (l0, s) \<and> pc (threads s t) = UnlockNotify
      \<and> step (Step t w) s = Some (a, s1) \<longrightarrow>
      (\<forall>u. is_blocked (pc (threads s1 u)) = (is_blocked (pc (threads s u)) \<and> Some u \<noteq> w))
      \<and> ((\<exists>u. is_blocked (pc (threads s u))) = (\<exists>v. w = Some v \<and> is_blocked (pc (threads s v)))))
   \<and> ticket_lock_unlock (lck s) = (lck s)\<lparr>now_serving := now_serving (lck s) + 1\<rparr>"
proof -
  have old: "(pc (threads s t) = Idle \<and> remaining (threads s t) \<noteq> 0 \<longrightarrow>
      step (Step t w) s =
        Some (FetchAdd NextTicket memory_order_relaxed (next_ticket (lck s)),
              set_pc t (LockLoad (next_ticket (lck s)))
                (s\<lparr>lck := (lck s)\<lparr>next_ticket := next_ticket (lck s) + 1\<rparr>\<rparr>)))
   \<and> (pc (threads s t) = LockLoad k \<longrightarrow>
      step (Step t w) s =
        Some (Load NowServing memory_order_acquire (now_serving (lck s)),
              set_pc t (LockTest k (now_serving (lck s))) s))
   \<and> (pc (threads s t) = LockTest k c \<or> pc (threads s t) = SlowTest k c \<longrightarrow>
      step (Step t w) s =
        Some (if c = k then (LockReturns, set_pc t CritRead s)
              else (LockWaits, set_pc t (SlowWait k c) s)))
   \<and> (pc (threads s t) = SlowLoad k \<longrightarrow>
      step (Step t w) s =
        Some (Load NowServing memory_order_acquire (now_serving (lck s)),
              set_pc t (SlowTest k (now_serving (lck s))) s))
   \<and> (pc (threads s t) = Idle \<and> remaining (threads s t) \<noteq> 0
      \<and> now_serving (lck s) = next_ticket (lck s) \<longrightarrow>
      execute [Step t w, Step t w, Step t w] (l, s) =
        Some (l @ [(t, FetchAdd NextTicket memory_order_relaxed (next_ticket (lck s))),
                   (t, Load NowServing memory_order_acquire (now_serving (lck s))),
                   (t, LockReturns)],
              set_pc t CritRead (s\<lparr>lck := (lck s)\<lparr>next_ticket := next_ticket (lck s) + 1\<rparr>\<rparr>))
      \<and> ticket_lock_lock (lck s) = Some ((lck s)\<lparr>next_ticket := next_ticket (lck s) + 1\<rparr>))
   \<and> (pc (threads s t) = Idle \<and> remaining (threads s t) \<noteq> 0
      \<and> now_serving (lck s) \<noteq> next_ticket (lck s) \<longrightarrow>
      execute [Step t w, Step t w, Step t w] (l, s) =
        Some (l @ [(t, FetchAdd NextTicket memory_order_relaxed (next_ticket (lck s))),
                   (t, Load NowServing memory_order_acquire (now_serving (lck s))),
                   (t, LockWaits)],
              set_pc t (SlowWait (next_ticket (lck s)) (now_serving (lck s)))
                (s\<lparr>lck := (lck s)\<lparr>next_ticket := next_ticket (lck s) + 1\<rparr>\<rparr>))
      \<and> ticket_lock_lock (lck s) = None)
   \<and> (pc (threads s t) = SlowWait k c \<longrightarrow>
      step (Step t w) s =
        Some (AtomicWait NowServing c,
              if now_serving (lck s) \<noteq> c then set_pc t (SlowLoad k) s
              else set_pc t (Blocked k c) (s\<lparr>waiters := waiters s @ [t]\<rparr>)))
   \<and> (pc (threads s t) = Blocked k c \<longrightarrow> step (Step t w) s = None)
   \<and> (pc (threads s t) = SlowLoad k \<longrightarrow>
      execute [Step t w, Step t w] (l, s) =
        Some (l @ [(t, Load NowServing memory_order_acquire (now_serving (lck s))),
                   (t, if now_serving (lck s) = k then LockReturns else LockWaits)],
              set_pc t (if now_serving (lck s) = k then CritRead
                        else SlowWait k (now_serving (lck s))) s))"
    by (intro conjI impI)
       (auto simp: lock_fast_path lock_slow_path slow_reload ticket_lock_lock_free
          ticket_lock_lock_held [OF not_sym] atomic_wait_def simp del: execute.simps)
  have wakes: "pc (threads s t) = UnlockInc \<and> v \<in> set (waiters s) \<longrightarrow>
      (\<exists>s'. execute [Step t w, Step t (Some v)] (l, s) =
            Some (l @ [(t, FetchAdd NowServing memory_order_release (now_serving (lck s))),
                       (t, AtomicNotifyOne NowServing (Some v))], s')
          \<and> lck s' = ticket_lock_unlock (lck s)
          \<and> waiters s' = removeAll v (waiters s)
          \<and> (\<forall>u. u \<noteq> t \<and> u \<noteq> v \<longrightarrow> threads s' u = threads s u)
          \<and> (\<forall>k c. pc (threads s v) = Blocked k c \<longrightarrow> pc (threads s' v) = SlowLoad k))"
    using unlock_wakes [of s t v w l] by (simp add: ticket_lock_unlock_def)
  have nobody: "pc (threads s t) = UnlockInc \<and> waiters s = [] \<longrightarrow>
      (\<exists>s'. execute [Step t w, Step t None] (l, s) =
            Some (l @ [(t, FetchAdd NowServing memory_order_release (now_serving (lck s))),
                       (t, AtomicNotifyOne NowServing None)], s')
          \<and> lck s' = ticket_lock_unlock (lck s)
          \<and> waiters s' = []
          \<and> (\<forall>u. u \<noteq> t \<longrightarrow> threads s' u = threads s u))"
    using unlock_nobody [of s t w l] by (simp add: ticket_lock_unlock_def)
  have inc: "pc (threads s t) = UnlockInc \<longrightarrow>
      step (Step t w) s =
        Some (FetchAdd NowServing memory_order_release (now_serving (lck s)),
              set_pc t UnlockNotify (s\<lparr>lck := ticket_lock_unlock (lck s)\<rparr>))"
    using unlock_inc_step [of s t w] by blast
  have skip: "pc (threads s t) = UnlockNotify \<and> waiters s \<noteq> [] \<longrightarrow> step (Step t None) s = None"
    using notify_not_skipped [of s t] by blast
  have only: "pc (threads s t) = UnlockNotify \<and> v \<notin> set (waiters s) \<longrightarrow>
      step (Step t (Some v)) s = None"
    using notify_only_waiter [of s t v] by blast
  have eff: "pc (threads s t) = UnlockNotify \<and> step (Step t w) s = Some (a, s1) \<longrightarrow>
      a = AtomicNotifyOne NowServing w \<and> lck s1 = lck s \<and> counter s1 = counter s
      \<and> threads s1 t = \<lparr>pc = Idle, remaining = remaining (threads s t) - 1\<rparr>
      \<and> (case w of
            None \<Rightarrow> waiters s = [] \<and> waiters s1 = []
                    \<and> (\<forall>u. u \<noteq> t \<longrightarrow> threads s1 u = threads s u)
          | Some v \<Rightarrow> v \<in> set (waiters s) \<and> waiters s1 = removeAll v (waiters s)
                    \<and> set (waiters s1) = set (waiters s) - {v}
                    \<and> (\<forall>u. u \<noteq> t \<and> u \<noteq> v \<longrightarrow> threads s1 u = threads s u)
                    \<and> (\<forall>k c. pc (threads s v) = Blocked k c \<longrightarrow>
                          threads s1 v = \<lparr>pc = SlowLoad k, remaining = remaining (threads s v)\<rparr>))"
    using notify_effect [of s t w a s1] by blast
  have wi: "execute es ([], init_state rounds) = Some (l0, s) \<longrightarrow>
      distinct (waiters s) \<and> (\<forall>u. (u \<in> set (waiters s)) = is_blocked (pc (threads s u)))"
    using reachable_waiters [of es rounds l0 s] by (simp add: waiters_inv_def)
  have one: "execute es ([], init_state rounds) = Some (l0, s) \<and> pc (threads s t) = UnlockNotify
      \<and> step (Step t w) s = Some (a, s1) \<longrightarrow>
      (\<forall>u. is_blocked (pc (threads s1 u)) = (is_blocked (pc (threads s u)) \<and> Some u \<noteq> w))
      \<and> ((\<exists>u. is_blocked (pc (threads s u))) = (\<exists>v. w = Some v \<and> is_blocked (pc (threads s v))))"
    using notify_wakes_exactly_one [of es rounds l0 s t w a s1] by blast
  show ?thesis
    by (intro conjI old [THEN conjunct1] old [THEN conjunct2, THEN conjunct1]
        old [THEN conjunct2, THEN conjunct2, THEN conjunct1]
        old [THEN conjunct2, THEN conjunct2, THEN conjunct2, THEN conjunct1]
        old [THEN conjunct2, THEN conjunct2, THEN conjunct2, THEN conjunct2, THEN conjunct1]
        old [THEN conjunct2, THEN conjunct2, THEN conjunct2, THEN conjunct2, THEN conjunct2,
          THEN conjunct1]
        old [THEN conjunct2, THEN conjunct2, THEN conjunct2, THEN conjunct2, THEN conjunct2,
          THEN conjunct2, THEN conjunct1]
        old [THEN conjunct2, THEN conjunct2, THEN conjunct2, THEN conjunct2, THEN conjunct2,
          THEN conjunct2, THEN conjunct2, THEN conjunct1]
        old [THEN conjunct2, THEN conjunct2, THEN conjunct2, THEN conjunct2, THEN conjunct2,
          THEN conjunct2, THEN conjunct2, THEN conjunct2]
        wakes nobody inc skip only eff wi one ticket_lock_unlock_def)
qed

theorem ticket_lock_algorithm_witness:
  "execute [Step 1 None, Step 1 None, Step 1 None]
      ([], init_state (\<lambda>t. if t = 1 then 1 else 0)) =
     Some ([(1, FetchAdd NextTicket memory_order_relaxed 0),
            (1, Load NowServing memory_order_acquire 0),
            (1, LockReturns)],
           set_pc 1 CritRead
             ((init_state (\<lambda>t. if t = 1 then 1 else 0))\<lparr>lck := \<lparr>next_ticket = 1, now_serving = 0\<rparr>\<rparr>))
   \<and> ticket_lock_lock ticket_lock_init = Some \<lparr>next_ticket = 1, now_serving = 0\<rparr>
   \<and> step (Step 2 None)
        \<lparr>lck = \<lparr>next_ticket = 2, now_serving = 0\<rparr>, waiters = [2], counter = 0,
         threads = (\<lambda>t. \<lparr>pc = Idle, remaining = 0\<rparr>)
            (1 := \<lparr>pc = UnlockInc, remaining = 1\<rparr>, 2 := \<lparr>pc = Blocked 1 0, remaining = 1\<rparr>)\<rparr>
       = None
   \<and> (\<exists>l s s2. execute [Step 1 None, Step 1 None, Step 1 None]
           ([], init_state (\<lambda>t. if t \<in> {1, 2, 3} then 1 else 0)) = Some (l, s)
         \<and> lck s = \<lparr>next_ticket = 1, now_serving = 0\<rparr>
         \<and> ticket_lock_lock (lck s) = None
         \<and> execute [Step 2 None, Step 2 None, Step 2 None] (l, s) =
               Some (l @ [(2, FetchAdd NextTicket memory_order_relaxed 1),
                          (2, Load NowServing memory_order_acquire 0),
                          (2, LockWaits)],
                     set_pc 2 (SlowWait 1 0) (s\<lparr>lck := \<lparr>next_ticket = 2, now_serving = 0\<rparr>\<rparr>))
         \<and> step (Step 2 None) (set_pc 2 (SlowWait 1 0) (s\<lparr>lck := \<lparr>next_ticket = 2, now_serving = 0\<rparr>\<rparr>))
               = Some (AtomicWait NowServing 0, s2)
         \<and> pc (threads s2 2) = Blocked 1 0 \<and> waiters s2 = [2])
   \<and> (\<exists>l s s'. execute
           [Step 1 None, Step 1 None, Step 1 None,
            Step 2 None, Step 2 None, Step 2 None,
            Step 3 None, Step 3 None, Step 3 None, Step 3 None,
            Step 2 None,
            Step 1 None, Step 1 None]
           ([], init_state (\<lambda>t. if t \<in> {1, 2, 3} then 1 else 0)) = Some (l, s)
         \<and> pc (threads s 1) = UnlockInc \<and> waiters s = [3, 2]
         \<and> lck s = \<lparr>next_ticket = 3, now_serving = 0\<rparr>
         \<and> step (Step 1 None) s =
               Some (FetchAdd NowServing memory_order_release 0,
                     set_pc 1 UnlockNotify (s\<lparr>lck := \<lparr>next_ticket = 3, now_serving = 1\<rparr>\<rparr>))
         \<and> execute [Step 1 None, Step 1 (Some 3)] (l, s) =
               Some (l @ [(1, FetchAdd NowServing memory_order_release 0),
                          (1, AtomicNotifyOne NowServing (Some 3))], s')
         \<and> lck s' = \<lparr>next_ticket = 3, now_serving = 1\<rparr>
         \<and> waiters s' = [2]
         \<and> pc (threads s' 3) = SlowLoad 2)
   \<and> (\<exists>l s a s1. execute
        [Step 1 None, Step 1 None, Step 1 None,
         Step 2 None, Step 2 None, Step 2 None,
         Step 3 None, Step 3 None, Step 3 None, Step 3 None,
         Step 2 None,
         Step 1 None, Step 1 None, Step 1 None]
        ([], init_state (\<lambda>t. if t \<in> {1, 2, 3} then 1 else 0)) = Some (l, s)
      \<and> lck s = \<lparr>next_ticket = 3, now_serving = 1\<rparr>
      \<and> pc (threads s 1) = UnlockNotify \<and> waiters s = [3, 2]
      \<and> step (Step 1 None) s = None
      \<and> step (Step 1 (Some 1)) s = None
      \<and> step (Step 1 (Some 3)) s = Some (a, s1)
      \<and> a = AtomicNotifyOne NowServing (Some 3)
      \<and> waiters s1 = [2]
      \<and> threads s1 1 = \<lparr>pc = Idle, remaining = 0\<rparr>
      \<and> threads s1 3 = \<lparr>pc = SlowLoad 2, remaining = 1\<rparr>
      \<and> is_blocked (pc (threads s1 2)) \<and> \<not> is_blocked (pc (threads s1 3)))
   \<and> (\<exists>l s s2. execute
           [Step 1 None, Step 1 None, Step 1 None,
            Step 2 None, Step 2 None, Step 2 None,
            Step 3 None, Step 3 None, Step 3 None, Step 3 None,
            Step 2 None,
            Step 1 None, Step 1 None, Step 1 None, Step 1 (Some 3)]
           ([], init_state (\<lambda>t. if t \<in> {1, 2, 3} then 1 else 0)) = Some (l, s)
         \<and> pc (threads s 3) = SlowLoad 2 \<and> now_serving (lck s) = 1
         \<and> execute [Step 3 None, Step 3 None] (l, s) =
               Some (l @ [(3, Load NowServing memory_order_acquire 1), (3, LockWaits)],
                     set_pc 3 (SlowWait 2 1) s)
         \<and> step (Step 3 None) (set_pc 3 (SlowWait 2 1) s) = Some (AtomicWait NowServing 1, s2)
         \<and> pc (threads s2 3) = Blocked 2 1 \<and> waiters s2 = [2, 3])"
proof -
  let ?s0 = "init_state (\<lambda>t. if t = (1 :: u32) then 1 else 0)"
  let ?s1 = "\<lparr>lck = \<lparr>next_ticket = 2, now_serving = 0\<rparr>, waiters = [2], counter = 0,
         threads = (\<lambda>t. \<lparr>pc = Idle, remaining = 0\<rparr>)
            (1 := \<lparr>pc = UnlockInc, remaining = 1\<rparr>, 2 := \<lparr>pc = Blocked 1 0, remaining = 1\<rparr>)\<rparr>"
  have a0: "pc (threads ?s0 1) = Idle \<and> remaining (threads ?s0 1) \<noteq> 0
      \<and> now_serving (lck ?s0) = next_ticket (lck ?s0)"
    by (simp add: init_state_def ticket_lock_init_def)
  have l0: "lck ?s0 = ticket_lock_init" "next_ticket (lck ?s0) = 0" "now_serving (lck ?s0) = 0"
    by (simp_all add: init_state_def ticket_lock_init_def)
  have b0: "pc (threads ?s1 2) = Blocked 1 0" by simp
  note f = ticket_lock_algorithm [where s = ?s0 and t = 1 and w = None and l = "[]",
      THEN conjunct2, THEN conjunct2, THEN conjunct2, THEN conjunct2, THEN conjunct1]
  note g = ticket_lock_algorithm [where s = ?s1 and t = 2 and w = None and k = 1 and c = 0,
      THEN conjunct2, THEN conjunct2, THEN conjunct2, THEN conjunct2, THEN conjunct2,
      THEN conjunct2, THEN conjunct2, THEN conjunct1]
  have 1: "execute [Step 1 None, Step 1 None, Step 1 None] ([], ?s0) =
     Some ([(1, FetchAdd NextTicket memory_order_relaxed 0),
            (1, Load NowServing memory_order_acquire 0),
            (1, LockReturns)],
           set_pc 1 CritRead (?s0\<lparr>lck := \<lparr>next_ticket = 1, now_serving = 0\<rparr>\<rparr>))"
    and 2: "ticket_lock_lock ticket_lock_init = Some \<lparr>next_ticket = 1, now_serving = 0\<rparr>"
    using f [rule_format, OF a0] unfolding l0 by (simp_all add: ticket_lock_init_def)
  have 3: "step (Step 2 None) ?s1 = None"
    using g [rule_format, OF b0] .
  let ?es = "[Step 1 None, Step 1 None, Step 1 None,
       Step 2 None, Step 2 None, Step 2 None,
       Step 3 None, Step 3 None, Step 3 None, Step 3 None,
       Step 2 None,
       Step 1 None, Step 1 None, Step 1 None]"
  let ?rounds = "\<lambda>t :: u32. if t \<in> {1, 2, 3} then 1 else (0 :: nat)"
  have "\<exists>l s. execute ?es ([], init_state ?rounds) = Some (l, s)
      \<and> lck s = \<lparr>next_ticket = 3, now_serving = 1\<rparr>
      \<and> pc (threads s 1) = UnlockNotify \<and> remaining (threads s 1) = 1
      \<and> waiters s = [3, 2]
      \<and> pc (threads s 3) = Blocked 2 0 \<and> remaining (threads s 3) = 1
      \<and> pc (threads s 2) = Blocked 1 0
      \<and> (\<exists>a s1. step (Step 1 (Some 3)) s = Some (a, s1))"
    by (simp add: execute_defs)
  then obtain l s a s1 where ex: "execute ?es ([], init_state ?rounds) = Some (l, s)"
    and lk: "lck s = \<lparr>next_ticket = 3, now_serving = 1\<rparr>"
    and pc1: "pc (threads s 1) = UnlockNotify" and r1: "remaining (threads s 1) = 1"
    and wt: "waiters s = [3, 2]"
    and pc3: "pc (threads s 3) = Blocked 2 0" and r3: "remaining (threads s 3) = 1"
    and pc2: "pc (threads s 2) = Blocked 1 0"
    and st: "step (Step 1 (Some 3)) s = Some (a, s1)"
    by blast
  note T = ticket_lock_algorithm [where s = s and t = 1 and w = "Some 3" and v = 1 and a = a
      and ?s1.0 = s1 and es = ?es and rounds = ?rounds and ?l0.0 = l]
  note Tt = T [THEN conjunct2, THEN conjunct2, THEN conjunct2, THEN conjunct2, THEN conjunct2,
      THEN conjunct2, THEN conjunct2, THEN conjunct2, THEN conjunct2, THEN conjunct2,
      THEN conjunct2, THEN conjunct2]
  have ne: "waiters s \<noteq> []" and n1: "1 \<notin> set (waiters s)" using wt by simp_all
  have skip: "step (Step 1 None) s = None" using Tt [THEN conjunct1] pc1 ne by blast
  have only: "step (Step 1 (Some 1)) s = None"
    using Tt [THEN conjunct2, THEN conjunct1] pc1 n1 by blast
  have eff: "a = AtomicNotifyOne NowServing (Some 3)
      \<and> threads s1 1 = \<lparr>pc = Idle, remaining = remaining (threads s 1) - 1\<rparr>
      \<and> (case Some (3 :: u32) of
            None \<Rightarrow> waiters s = [] \<and> waiters s1 = []
                    \<and> (\<forall>u. u \<noteq> 1 \<longrightarrow> threads s1 u = threads s u)
          | Some v \<Rightarrow> v \<in> set (waiters s) \<and> waiters s1 = removeAll v (waiters s)
                    \<and> set (waiters s1) = set (waiters s) - {v}
                    \<and> (\<forall>u. u \<noteq> 1 \<and> u \<noteq> v \<longrightarrow> threads s1 u = threads s u)
                    \<and> (\<forall>k c. pc (threads s v) = Blocked k c \<longrightarrow>
                          threads s1 v = \<lparr>pc = SlowLoad k, remaining = remaining (threads s v)\<rparr>))"
    using Tt [THEN conjunct2, THEN conjunct2, THEN conjunct1] pc1 st by blast
  have one: "\<forall>u. is_blocked (pc (threads s1 u)) =
      (is_blocked (pc (threads s u)) \<and> Some u \<noteq> Some (3 :: u32))"
    using Tt [THEN conjunct2, THEN conjunct2, THEN conjunct2, THEN conjunct2, THEN conjunct1]
      ex pc1 st by blast
  have a: "a = AtomicNotifyOne NowServing (Some 3)" using eff by simp
  have w1: "waiters s1 = [2]" using eff wt by simp
  have t1: "threads s1 1 = \<lparr>pc = Idle, remaining = 0\<rparr>" using eff r1 by simp
  have t3: "threads s1 3 = \<lparr>pc = SlowLoad 2, remaining = 1\<rparr>" using eff pc3 r3 by simp
  have b2: "is_blocked (pc (threads s1 2))" using one pc2 by simp
  have b3: "\<not> is_blocked (pc (threads s1 3))" using one by simp
  have N: "\<exists>l s a s1. execute ?es ([], init_state ?rounds) = Some (l, s)
      \<and> lck s = \<lparr>next_ticket = 3, now_serving = 1\<rparr>
      \<and> pc (threads s 1) = UnlockNotify \<and> waiters s = [3, 2]
      \<and> step (Step 1 None) s = None
      \<and> step (Step 1 (Some 1)) s = None
      \<and> step (Step 1 (Some 3)) s = Some (a, s1)
      \<and> a = AtomicNotifyOne NowServing (Some 3)
      \<and> waiters s1 = [2]
      \<and> threads s1 1 = \<lparr>pc = Idle, remaining = 0\<rparr>
      \<and> threads s1 3 = \<lparr>pc = SlowLoad 2, remaining = 1\<rparr>
      \<and> is_blocked (pc (threads s1 2)) \<and> \<not> is_blocked (pc (threads s1 3))"
    using ex lk pc1 wt skip only st a w1 t1 t3 b2 b3 by blast
  have S: "\<exists>l s s2. execute [Step 1 None, Step 1 None, Step 1 None]
          ([], init_state (\<lambda>t. if t \<in> {1, 2, 3} then 1 else 0)) = Some (l, s)
        \<and> lck s = \<lparr>next_ticket = 1, now_serving = 0\<rparr>
        \<and> ticket_lock_lock (lck s) = None
        \<and> execute [Step 2 None, Step 2 None, Step 2 None] (l, s) =
              Some (l @ [(2, FetchAdd NextTicket memory_order_relaxed 1),
                         (2, Load NowServing memory_order_acquire 0),
                         (2, LockWaits)],
                    set_pc 2 (SlowWait 1 0) (s\<lparr>lck := \<lparr>next_ticket = 2, now_serving = 0\<rparr>\<rparr>))
        \<and> step (Step 2 None) (set_pc 2 (SlowWait 1 0) (s\<lparr>lck := \<lparr>next_ticket = 2, now_serving = 0\<rparr>\<rparr>))
              = Some (AtomicWait NowServing 0, s2)
        \<and> pc (threads s2 2) = Blocked 1 0 \<and> waiters s2 = [2]"
  proof -
    let ?rounds = "\<lambda>t :: u32. if t \<in> {1, 2, 3} then 1 else (0 :: nat)"
    have "\<exists>l s. execute [Step 1 None, Step 1 None, Step 1 None] ([], init_state ?rounds) = Some (l, s)
        \<and> lck s = \<lparr>next_ticket = 1, now_serving = 0\<rparr>
        \<and> pc (threads s 2) = Idle \<and> remaining (threads s 2) = 1 \<and> waiters s = []"
      by (simp add: execute_defs)
    then obtain l s where ex: "execute [Step 1 None, Step 1 None, Step 1 None]
          ([], init_state ?rounds) = Some (l, s)"
      and lk: "lck s = \<lparr>next_ticket = 1, now_serving = 0\<rparr>"
      and pc2: "pc (threads s 2) = Idle" and r2: "remaining (threads s 2) = 1"
      and wt: "waiters s = []"
      by blast
    let ?s1 = "set_pc 2 (SlowWait 1 0) (s\<lparr>lck := \<lparr>next_ticket = 2, now_serving = 0\<rparr>\<rparr>)"
    note T = ticket_lock_algorithm [where s = s and t = 2 and w = None and l = l]
    have h: "pc (threads s 2) = Idle \<and> remaining (threads s 2) \<noteq> 0
        \<and> now_serving (lck s) \<noteq> next_ticket (lck s)"
      using pc2 r2 lk by simp
    have slow: "execute [Step 2 None, Step 2 None, Step 2 None] (l, s) =
          Some (l @ [(2, FetchAdd NextTicket memory_order_relaxed (next_ticket (lck s))),
                     (2, Load NowServing memory_order_acquire (now_serving (lck s))),
                     (2, LockWaits)],
                set_pc 2 (SlowWait (next_ticket (lck s)) (now_serving (lck s)))
                  (s\<lparr>lck := (lck s)\<lparr>next_ticket := next_ticket (lck s) + 1\<rparr>\<rparr>))
        \<and> ticket_lock_lock (lck s) = None"
      using T [THEN conjunct2, THEN conjunct2, THEN conjunct2, THEN conjunct2, THEN conjunct2,
        THEN conjunct1] h by blast
    have 1: "execute [Step 2 None, Step 2 None, Step 2 None] (l, s) =
              Some (l @ [(2, FetchAdd NextTicket memory_order_relaxed 1),
                         (2, Load NowServing memory_order_acquire 0),
                         (2, LockWaits)], ?s1)"
      and 2: "ticket_lock_lock (lck s) = None"
      using slow lk by simp_all
    have p: "pc (threads ?s1 2) = SlowWait 1 0" by simp
    note W = ticket_lock_algorithm [where s = ?s1 and t = 2 and w = None and k = 1 and c = 0,
        THEN conjunct2, THEN conjunct2, THEN conjunct2, THEN conjunct2, THEN conjunct2,
        THEN conjunct2, THEN conjunct1]
    have "step (Step 2 None) ?s1 =
          Some (AtomicWait NowServing 0,
                if now_serving (lck ?s1) \<noteq> 0 then set_pc 2 (SlowLoad 1) ?s1
                else set_pc 2 (Blocked 1 0) (?s1\<lparr>waiters := waiters ?s1 @ [2]\<rparr>))"
      using W p by blast
    then have 3: "step (Step 2 None) ?s1 =
        Some (AtomicWait NowServing 0, set_pc 2 (Blocked 1 0) (?s1\<lparr>waiters := waiters ?s1 @ [2]\<rparr>))"
      by simp
    have 4: "pc (threads (set_pc 2 (Blocked 1 0) (?s1\<lparr>waiters := waiters ?s1 @ [2]\<rparr>)) 2) = Blocked 1 0"
      and 5: "waiters (set_pc 2 (Blocked 1 0) (?s1\<lparr>waiters := waiters ?s1 @ [2]\<rparr>)) = [2]"
      using wt by simp_all
    show ?thesis using ex lk 1 2 3 4 5 by blast
  qed
  have U: "\<exists>l s s'. execute
          [Step 1 None, Step 1 None, Step 1 None,
           Step 2 None, Step 2 None, Step 2 None,
           Step 3 None, Step 3 None, Step 3 None, Step 3 None,
           Step 2 None,
           Step 1 None, Step 1 None]
          ([], init_state (\<lambda>t. if t \<in> {1, 2, 3} then 1 else 0)) = Some (l, s)
        \<and> pc (threads s 1) = UnlockInc \<and> waiters s = [3, 2]
        \<and> lck s = \<lparr>next_ticket = 3, now_serving = 0\<rparr>
        \<and> step (Step 1 None) s =
              Some (FetchAdd NowServing memory_order_release 0,
                    set_pc 1 UnlockNotify (s\<lparr>lck := \<lparr>next_ticket = 3, now_serving = 1\<rparr>\<rparr>))
        \<and> execute [Step 1 None, Step 1 (Some 3)] (l, s) =
              Some (l @ [(1, FetchAdd NowServing memory_order_release 0),
                         (1, AtomicNotifyOne NowServing (Some 3))], s')
        \<and> lck s' = \<lparr>next_ticket = 3, now_serving = 1\<rparr>
        \<and> waiters s' = [2]
        \<and> pc (threads s' 3) = SlowLoad 2"
  proof -
    let ?es = "[Step 1 None, Step 1 None, Step 1 None,
           Step 2 None, Step 2 None, Step 2 None,
           Step 3 None, Step 3 None, Step 3 None, Step 3 None,
           Step 2 None,
           Step 1 None, Step 1 None]"
    let ?rounds = "\<lambda>t :: u32. if t \<in> {1, 2, 3} then 1 else (0 :: nat)"
    have "\<exists>l s. execute ?es ([], init_state ?rounds) = Some (l, s)
        \<and> pc (threads s 1) = UnlockInc \<and> waiters s = [3, 2]
        \<and> lck s = \<lparr>next_ticket = 3, now_serving = 0\<rparr>
        \<and> pc (threads s 3) = Blocked 2 0"
      by (simp add: execute_defs)
    then obtain l s where ex: "execute ?es ([], init_state ?rounds) = Some (l, s)"
      and pc1: "pc (threads s 1) = UnlockInc" and wt: "waiters s = [3, 2]"
      and lk: "lck s = \<lparr>next_ticket = 3, now_serving = 0\<rparr>"
      and pc3: "pc (threads s 3) = Blocked 2 0"
      by blast
    note T = ticket_lock_algorithm [where s = s and t = 1 and w = None and v = 3 and l = l]
    note Tt = T [THEN conjunct2, THEN conjunct2, THEN conjunct2, THEN conjunct2, THEN conjunct2,
        THEN conjunct2, THEN conjunct2, THEN conjunct2, THEN conjunct2]
    have v: "3 \<in> set (waiters s)" using wt by simp
    have ul: "ticket_lock_unlock (lck s) = \<lparr>next_ticket = 3, now_serving = 1\<rparr>"
      using Tt [THEN conjunct2, THEN conjunct2, THEN conjunct2, THEN conjunct2, THEN conjunct2,
        THEN conjunct2, THEN conjunct2, THEN conjunct2] lk by simp
    have inc: "step (Step 1 None) s =
          Some (FetchAdd NowServing memory_order_release 0,
                set_pc 1 UnlockNotify (s\<lparr>lck := \<lparr>next_ticket = 3, now_serving = 1\<rparr>\<rparr>))"
      using Tt [THEN conjunct2, THEN conjunct2, THEN conjunct1] pc1 lk ul by simp
    obtain s' where u: "execute [Step 1 None, Step 1 (Some 3)] (l, s) =
              Some (l @ [(1, FetchAdd NowServing memory_order_release (now_serving (lck s))),
                         (1, AtomicNotifyOne NowServing (Some 3))], s')"
        "lck s' = ticket_lock_unlock (lck s)" "waiters s' = removeAll 3 (waiters s)"
        "\<forall>k c. pc (threads s 3) = Blocked k c \<longrightarrow> pc (threads s' 3) = SlowLoad k"
      using Tt [THEN conjunct1] pc1 v by blast
    have "execute [Step 1 None, Step 1 (Some 3)] (l, s) =
              Some (l @ [(1, FetchAdd NowServing memory_order_release 0),
                         (1, AtomicNotifyOne NowServing (Some 3))], s')"
      using u(1) lk by simp
    moreover have "lck s' = \<lparr>next_ticket = 3, now_serving = 1\<rparr>" using u(2) ul by simp
    moreover have "waiters s' = [2]" using u(3) wt by simp
    moreover have "pc (threads s' 3) = SlowLoad 2" using u(4) pc3 by simp
    ultimately show ?thesis using ex pc1 wt lk inc by blast
  qed
  have R: "\<exists>l s s2. execute
          [Step 1 None, Step 1 None, Step 1 None,
           Step 2 None, Step 2 None, Step 2 None,
           Step 3 None, Step 3 None, Step 3 None, Step 3 None,
           Step 2 None,
           Step 1 None, Step 1 None, Step 1 None, Step 1 (Some 3)]
          ([], init_state (\<lambda>t. if t \<in> {1, 2, 3} then 1 else 0)) = Some (l, s)
        \<and> pc (threads s 3) = SlowLoad 2 \<and> now_serving (lck s) = 1
        \<and> execute [Step 3 None, Step 3 None] (l, s) =
              Some (l @ [(3, Load NowServing memory_order_acquire 1), (3, LockWaits)],
                    set_pc 3 (SlowWait 2 1) s)
        \<and> step (Step 3 None) (set_pc 3 (SlowWait 2 1) s) = Some (AtomicWait NowServing 1, s2)
        \<and> pc (threads s2 3) = Blocked 2 1 \<and> waiters s2 = [2, 3]"
  proof -
    let ?es = "[Step 1 None, Step 1 None, Step 1 None,
           Step 2 None, Step 2 None, Step 2 None,
           Step 3 None, Step 3 None, Step 3 None, Step 3 None,
           Step 2 None,
           Step 1 None, Step 1 None, Step 1 None, Step 1 (Some 3)]"
    let ?rounds = "\<lambda>t :: u32. if t \<in> {1, 2, 3} then 1 else (0 :: nat)"
    have "\<exists>l s. execute ?es ([], init_state ?rounds) = Some (l, s)
        \<and> pc (threads s 3) = SlowLoad 2 \<and> now_serving (lck s) = 1 \<and> waiters s = [2]"
      by (simp add: execute_defs)
    then obtain l s where ex: "execute ?es ([], init_state ?rounds) = Some (l, s)"
      and pc3: "pc (threads s 3) = SlowLoad 2" and ns: "now_serving (lck s) = 1"
      and wt: "waiters s = [2]"
      by blast
    let ?s1 = "set_pc 3 (SlowWait 2 1) s"
    note R = ticket_lock_algorithm [where s = s and t = 3 and w = None and k = 2 and l = l,
        THEN conjunct2, THEN conjunct2, THEN conjunct2, THEN conjunct2, THEN conjunct2,
        THEN conjunct2, THEN conjunct2, THEN conjunct2, THEN conjunct1]
    have "execute [Step 3 None, Step 3 None] (l, s) =
          Some (l @ [(3, Load NowServing memory_order_acquire (now_serving (lck s))),
                     (3, if now_serving (lck s) = 2 then LockReturns else LockWaits)],
                set_pc 3 (if now_serving (lck s) = 2 then CritRead
                          else SlowWait 2 (now_serving (lck s))) s)"
      using R pc3 by blast
    then have 1: "execute [Step 3 None, Step 3 None] (l, s) =
        Some (l @ [(3, Load NowServing memory_order_acquire 1), (3, LockWaits)], ?s1)"
      using ns by simp
    have p: "pc (threads ?s1 3) = SlowWait 2 1" by simp
    note W = ticket_lock_algorithm [where s = ?s1 and t = 3 and w = None and k = 2 and c = 1,
        THEN conjunct2, THEN conjunct2, THEN conjunct2, THEN conjunct2, THEN conjunct2,
        THEN conjunct2, THEN conjunct1]
    have "step (Step 3 None) ?s1 =
          Some (AtomicWait NowServing 1,
                if now_serving (lck ?s1) \<noteq> 1 then set_pc 3 (SlowLoad 2) ?s1
                else set_pc 3 (Blocked 2 1) (?s1\<lparr>waiters := waiters ?s1 @ [3]\<rparr>))"
      using W p by blast
    then have 2: "step (Step 3 None) ?s1 =
        Some (AtomicWait NowServing 1, set_pc 3 (Blocked 2 1) (?s1\<lparr>waiters := waiters ?s1 @ [3]\<rparr>))"
      using ns by simp
    have 3: "pc (threads (set_pc 3 (Blocked 2 1) (?s1\<lparr>waiters := waiters ?s1 @ [3]\<rparr>)) 3) = Blocked 2 1"
      and 4: "waiters (set_pc 3 (Blocked 2 1) (?s1\<lparr>waiters := waiters ?s1 @ [3]\<rparr>)) = [2, 3]"
      using wt by simp_all
    show ?thesis using ex pc3 ns 1 2 3 4 by blast
  qed
  show ?thesis using 1 2 3 S U N R by (intro conjI)
qed

end
